theory Spec2Isabelle
  imports Complex_Main
begin

section \<open>Random variables from scratch: the linear congruential engine and its samplers\<close>

text \<open>
  The notebook \<^verbatim>\<open>Intro_Hypothesis_Testing.ipynb\<close> builds every sampler on one
  linear congruential generator. Python integers are unbounded, so \<open>mult\<close>, \<open>mod\<close>,
  \<open>seed\<close> and \<open>size\<close> are \<^typ>\<open>int\<close>, and Python's \<^verbatim>\<open>%\<close> is HOL's \<open>mod\<close> on
  \<^typ>\<open>int\<close> (both take the sign of the divisor). Python floats and the entries of
  numpy arrays are binary64 numbers: every arithmetic operation on them returns the
  binary64 number nearest to the exact result, ties going to the even significand, or an
  infinity when that number is out of range. Every exception the code can raise is a
  value of \<open>py_error\<close>.
\<close>

datatype py_error = IndexError | ValueError | ZeroDivisionError

subsection \<open>Binary64 arithmetic\<close>

text \<open>
  \<open>rne\<close> rounds a real to the nearest integer, ties to even. A binary64 number has a
  significand of 53 bits and an exponent of at least -1022, below which the numbers are
  the multiples of \<open>2\<^sup>-\<^sup>1\<^sup>0\<^sup>7\<^sup>4\<close>: \<open>ulp_exp x\<close> is the exponent of the spacing of the
  binary64 numbers around \<open>x\<close>, and \<open>fl64 x\<close> the multiple of that spacing nearest to
  \<open>x\<close>, with no bound on how large it may be.
\<close>

definition rne :: "real \<Rightarrow> int" where
  "rne y = (let f = \<lfloor>y\<rfloor> in
            if y - of_int f < 1 / 2 then f
            else if 1 / 2 < y - of_int f then f + 1
            else if even f then f else f + 1)"

definition ulp_exp :: "real \<Rightarrow> int" where
  "ulp_exp x = max \<lfloor>log 2 \<bar>x\<bar>\<rfloor> (- 1022) - 52"

definition fl64 :: "real \<Rightarrow> real" where
  "fl64 x = (if x = 0 then 0 else of_int (rne (x / 2 powi ulp_exp x)) * 2 powi ulp_exp x)"

text \<open>
  A binary64 value is a number or one of the special values. The sign of zero is not
  kept: nothing in the functions below tells \<open>-0.0\<close> from \<open>0.0\<close>.
\<close>

datatype fval = Finite real | PosInf | NegInf | NaN

text \<open>The result of an operation whose exact value is \<open>x\<close>: rounded, or overflowed.\<close>

definition round64 :: "real \<Rightarrow> fval" where
  "round64 x = (if 2 ^ 1024 \<le> \<bar>fl64 x\<bar> then (if 0 < x then PosInf else NegInf)
                else Finite (fl64 x))"

fun f64_neg :: "fval \<Rightarrow> fval" where
  "f64_neg (Finite a) = Finite (- a)"
| "f64_neg PosInf = NegInf"
| "f64_neg NegInf = PosInf"
| "f64_neg NaN = NaN"

fun f64_mul :: "fval \<Rightarrow> fval \<Rightarrow> fval" where
  "f64_mul (Finite a) (Finite b) = round64 (a * b)"
| "f64_mul NaN y = NaN"
| "f64_mul x NaN = NaN"
| "f64_mul (Finite a) PosInf = (if a = 0 then NaN else if 0 < a then PosInf else NegInf)"
| "f64_mul (Finite a) NegInf = (if a = 0 then NaN else if 0 < a then NegInf else PosInf)"
| "f64_mul PosInf (Finite b) = (if b = 0 then NaN else if 0 < b then PosInf else NegInf)"
| "f64_mul NegInf (Finite b) = (if b = 0 then NaN else if 0 < b then NegInf else PosInf)"
| "f64_mul PosInf PosInf = PosInf"
| "f64_mul PosInf NegInf = NegInf"
| "f64_mul NegInf PosInf = NegInf"
| "f64_mul NegInf NegInf = PosInf"

fun f64_add :: "fval \<Rightarrow> fval \<Rightarrow> fval" where
  "f64_add (Finite a) (Finite b) = round64 (a + b)"
| "f64_add NaN y = NaN"
| "f64_add x NaN = NaN"
| "f64_add PosInf NegInf = NaN"
| "f64_add NegInf PosInf = NaN"
| "f64_add PosInf y = PosInf"
| "f64_add NegInf y = NegInf"
| "f64_add x PosInf = PosInf"
| "f64_add x NegInf = NegInf"

definition f64_sub :: "fval \<Rightarrow> fval \<Rightarrow> fval" where
  "f64_sub x y = f64_add x (f64_neg y)"

text \<open>\<^verbatim>\<open><=\<close> on binary64 values: false as soon as one side is NaN.\<close>

fun f64_le :: "fval \<Rightarrow> fval \<Rightarrow> bool" where
  "f64_le (Finite a) (Finite b) = (a \<le> b)"
| "f64_le NaN y = False"
| "f64_le x NaN = False"
| "f64_le NegInf y = True"
| "f64_le x PosInf = True"
| "f64_le PosInf y = False"
| "f64_le x NegInf = False"

text \<open>
  numpy's \<^verbatim>\<open>log\<close>, \<^verbatim>\<open>sqrt\<close>, \<^verbatim>\<open>cos\<close> and \<^verbatim>\<open>exp\<close>, and \<^verbatim>\<open>np.pi\<close>. Each is
  taken to return the binary64 number nearest to the exact value; \<^verbatim>\<open>np.log(0)\<close> is
  \<open>-inf\<close> and the logarithm of a negative number is NaN (numpy warns and goes on).
  A library may return a neighbour of the nearest number for \<^verbatim>\<open>log\<close>, \<^verbatim>\<open>cos\<close>
  and \<^verbatim>\<open>exp\<close>: the examples below evaluate these functions only through bounds
  that leave room for it.
\<close>

fun np_log :: "fval \<Rightarrow> fval" where
  "np_log (Finite u) = (if u = 0 then NegInf else if u < 0 then NaN else round64 (ln u))"
| "np_log PosInf = PosInf"
| "np_log NegInf = NaN"
| "np_log NaN = NaN"

fun np_sqrt :: "fval \<Rightarrow> fval" where
  "np_sqrt (Finite r) = (if r < 0 then NaN else round64 (sqrt r))"
| "np_sqrt PosInf = PosInf"
| "np_sqrt NegInf = NaN"
| "np_sqrt NaN = NaN"

fun np_cos :: "fval \<Rightarrow> fval" where
  "np_cos (Finite r) = round64 (cos r)"
| "np_cos PosInf = NaN"
| "np_cos NegInf = NaN"
| "np_cos NaN = NaN"

definition np_exp :: "real \<Rightarrow> fval" where
  "np_exp x = round64 (exp x)"

definition np_pi :: real where
  "np_pi = fl64 pi"

subsection \<open>The engine\<close>

text \<open>\<^verbatim>\<open>np.zeros(size)\<close>: a negative dimension raises ValueError.\<close>

definition np_zeros :: "int \<Rightarrow> py_error + real list" where
  "np_zeros sz = (if sz < 0 then Inl ValueError else Inr (replicate (nat sz) 0))"

text \<open>
  \<^verbatim>\<open>x/mod\<close> on two Python integers is the binary64 number nearest to the exact
  quotient. (Python raises OverflowError when that is out of range; here the dividend is a
  remainder of the divisor, so the quotient never exceeds 1.)
\<close>

definition py_truediv :: "int \<Rightarrow> int \<Rightarrow> real" where
  "py_truediv a b = fl64 (real_of_int a / real_of_int b)"

text \<open>
  The body of \<^verbatim>\<open>for i in range(1,size)\<close>:
  \<^verbatim>\<open>x = (x*mult+1)%mod; U[i] = x/mod\<close>. The index stays below \<open>size\<close>, the
  length of \<open>U\<close>, so the store is always in range.
\<close>

function lcg_loop :: "int \<Rightarrow> int \<Rightarrow> nat \<Rightarrow> nat \<Rightarrow> int \<Rightarrow> real list \<Rightarrow> real list" where
  "lcg_loop mult md sz i x U =
     (if i < sz
      then (let x' = (x * mult + 1) mod md
            in lcg_loop mult md sz (Suc i) x' (U[i := py_truediv x' md]))
      else U)"
  by pat_completeness auto
termination
  by (relation "measure (\<lambda>(mult, md, sz, i, x, U). sz - i)") auto

declare lcg_loop.simps [simp del]

text \<open>
  \<^verbatim>\<open>
  def pseudo_uniform_good(mult=16807, mod=(2**31)-1, seed=123456789, size=1):
      U = np.zeros(size)
      x = (seed*mult+1)%mod
      U[0] = x/mod
      for i in range(1,size):
          x = (x*mult+1)%mod
          U[i] = x/mod
      return U
  \<close>
  The statements fail in this order: \<^verbatim>\<open>np.zeros\<close> on a negative size, \<^verbatim>\<open>%\<close> on a
  zero modulus, the store to \<^verbatim>\<open>U[0]\<close> on an empty array.
\<close>

definition pseudo_uniform_good :: "int \<Rightarrow> int \<Rightarrow> int \<Rightarrow> int \<Rightarrow> py_error + real list" where
  "pseudo_uniform_good mult md seed sz =
     (case np_zeros sz of
        Inl e \<Rightarrow> Inl e
      | Inr U \<Rightarrow>
          if md = 0 then Inl ZeroDivisionError
          else (let x = (seed * mult + 1) mod md
                in if length U = 0 then Inl IndexError
                   else Inr (lcg_loop mult md (nat sz) 1 x (U[0 := py_truediv x md]))))"

text \<open>\<^verbatim>\<open>pseudo_uniform_bad\<close> has the same body; only its defaults (5, 11, 1) differ.\<close>

definition pseudo_uniform_bad :: "int \<Rightarrow> int \<Rightarrow> int \<Rightarrow> int \<Rightarrow> py_error + real list" where
  "pseudo_uniform_bad mult md seed sz =
     (case np_zeros sz of
        Inl e \<Rightarrow> Inl e
      | Inr U \<Rightarrow>
          if md = 0 then Inl ZeroDivisionError
          else (let x = (seed * mult + 1) mod md
                in if length U = 0 then Inl IndexError
                   else Inr (lcg_loop mult md (nat sz) 1 x (U[0 := py_truediv x md]))))"

text \<open>The default arguments of \<^verbatim>\<open>pseudo_uniform_good\<close>.\<close>

definition good_mult :: int where "good_mult = 16807"
definition good_mod :: int where "good_mod = 2 ^ 31 - 1"
definition default_seed :: int where "default_seed = 123456789"

text \<open>
  The recurrence as the specification words it: \<open>x\<^sub>0 = (seed \<sqdot> mult + 1) mod m\<close> and
  \<open>x\<^sub>i = (x\<^sub>i\<^sub>-\<^sub>1 \<sqdot> mult + 1) mod m\<close>. It is compared with the loop below.
\<close>

fun lcg_state :: "int \<Rightarrow> int \<Rightarrow> int \<Rightarrow> nat \<Rightarrow> int" where
  "lcg_state mult md seed 0 = (seed * mult + 1) mod md"
| "lcg_state mult md seed (Suc i) = (lcg_state mult md seed i * mult + 1) mod md"

subsection \<open>The uniform sampler\<close>

text \<open>
  \<^verbatim>\<open>
  def pseudo_uniform(low=0, high=1, seed=123456789, size=1):
      return low+(high-low)*pseudo_uniform_good(seed=seed,size=size)
  \<close>
  The engine runs with its default multiplier and modulus. \<open>low\<close> and \<open>high\<close> are
  Python floats (an integer that is a binary64 number, such as the defaults, gives the
  same values): \<^verbatim>\<open>high-low\<close> is rounded once, and numpy rounds the product and the sum
  for each element. No argument is checked.
\<close>

definition scale :: "real \<Rightarrow> real \<Rightarrow> real \<Rightarrow> fval" where
  "scale low high u =
     f64_add (Finite low) (f64_mul (f64_sub (Finite high) (Finite low)) (Finite u))"

definition pseudo_uniform :: "real \<Rightarrow> real \<Rightarrow> int \<Rightarrow> int \<Rightarrow> py_error + fval list" where
  "pseudo_uniform low high seed sz =
     (case pseudo_uniform_good good_mult good_mod seed sz of
        Inl e \<Rightarrow> Inl e
      | Inr U \<Rightarrow> Inr (map (scale low high) U))"

subsection \<open>The clock\<close>

text \<open>
  Every sampler below takes its seeds from \<^verbatim>\<open>time.perf_counter()\<close>:
  \<^verbatim>\<open>seed = int(10**9*float(str(t-int(t))[0:]))\<close>. The clock is an input of the
  model: \<open>clock k\<close> is the seed computed from the \<open>k\<close>-th reading made during a call
  (a number from 0 up to \<open>10\<^sup>9\<close>). Nothing is assumed about its values.
\<close>

type_synonym clock = "nat \<Rightarrow> int"

subsection \<open>Bernoulli and Binomial\<close>

text \<open>\<^verbatim>\<open>(B<=p).astype(int)\<close>, for one entry; \<open>p\<close> is a Python float.\<close>

definition indicator_le :: "real \<Rightarrow> fval \<Rightarrow> int" where
  "indicator_le p u = (if f64_le u (Finite p) then 1 else 0)"

text \<open>
  \<^verbatim>\<open>
  def pseudo_bernoulli(p=0.5,size=1):
      t = time.perf_counter()
      seed = int(10**9*float(str(t-int(t))[0:]))
      B = pseudo_uniform(seed=seed,size=size)
      B = (B<=p).astype(int)
      return B
  \<close>
\<close>

definition pseudo_bernoulli :: "real \<Rightarrow> int \<Rightarrow> clock \<Rightarrow> py_error + int list" where
  "pseudo_bernoulli p sz clock =
     (case pseudo_uniform 0 1 (clock 0) sz of
        Inl e \<Rightarrow> Inl e
      | Inr B \<Rightarrow> Inr (map (indicator_le p) B))"

text \<open>
  \<^verbatim>\<open>
  def pseudo_binomial(n=100, p=0.5, size=1):
      binom = []
      for _ in range(size):
          t = time.perf_counter()
          seed = int(10**9*float(str(t-int(t))[0:]))
          U = pseudo_uniform(size=n,seed=seed)
          Y = (U <= p).astype(int)
          binom.append(np.sum(Y))
      return binom
  \<close>
  The loop runs over the iteration numbers \<open>[0..<size]\<close>; iteration \<open>k\<close> reads the
  clock for the \<open>k\<close>-th time. An exception in one iteration ends the call.
\<close>

fun binomial_loop :: "int \<Rightarrow> real \<Rightarrow> clock \<Rightarrow> nat list \<Rightarrow> int list \<Rightarrow> py_error + int list" where
  "binomial_loop n p clock [] binom = Inr binom"
| "binomial_loop n p clock (k # ks) binom =
     (case pseudo_uniform 0 1 (clock k) n of
        Inl e \<Rightarrow> Inl e
      | Inr U \<Rightarrow> binomial_loop n p clock ks (binom @ [sum_list (map (indicator_le p) U)]))"

definition pseudo_binomial :: "int \<Rightarrow> real \<Rightarrow> int \<Rightarrow> clock \<Rightarrow> py_error + int list" where
  "pseudo_binomial n p sz clock = binomial_loop n p clock [0..<nat sz] []"

subsection \<open>Normal and Exponential\<close>

text \<open>
  \<^verbatim>\<open>
  def pseudo_normal(mu=0.0,sigma=1.0,size=1):
      t = time.perf_counter()
      seed1 = int(10**9*float(str(t-int(t))[0:]))
      U1 = pseudo_uniform(seed=seed1,size=size)
      t = time.perf_counter()
      seed2 = int(10**9*float(str(t-int(t))[0:]))
      U2 = pseudo_uniform(seed=seed2,size=size)
      Z0 = np.sqrt(-2*np.log(U1))*np.cos(2*np.pi*U2)
      Z1 = np.sqrt(-2*np.log(U1))*np.sin(2*np.pi*U2)
      Z0 = Z0*sigma+mu
      return Z0
  \<close>
  \<open>Z1\<close> is computed and dropped; it raises nothing. \<^verbatim>\<open>2*np.pi\<close> is a product of
  Python floats, rounded before it meets the array. \<open>mu\<close> and \<open>sigma\<close> are Python
  floats. There is no test of \<open>U1\<close> and no second draw.
\<close>

definition box_muller :: "real \<Rightarrow> real \<Rightarrow> fval \<Rightarrow> fval \<Rightarrow> fval" where
  "box_muller mu sigma u1 u2 =
     f64_add (f64_mul (f64_mul (np_sqrt (f64_mul (Finite (- 2)) (np_log u1)))
                               (np_cos (f64_mul (round64 (2 * np_pi)) u2)))
                      (Finite sigma))
             (Finite mu)"

definition pseudo_normal :: "real \<Rightarrow> real \<Rightarrow> int \<Rightarrow> clock \<Rightarrow> py_error + fval list" where
  "pseudo_normal mu sigma sz clock =
     (case pseudo_uniform 0 1 (clock 0) sz of
        Inl e \<Rightarrow> Inl e
      | Inr U1 \<Rightarrow>
          (case pseudo_uniform 0 1 (clock 1) sz of
             Inl e \<Rightarrow> Inl e
           | Inr U2 \<Rightarrow> Inr (map (\<lambda>(u1, u2). box_muller mu sigma u1 u2) (zip U1 U2))))"

text \<open>
  \<^verbatim>\<open>
  def pseudo_exp(lamb,size=1):
      t = time.perf_counter()
      seed = int(10**9*float(str(t-int(t))[0:]))
      U = pseudo_uniform(size=size,seed=seed)
      X = -(1/lamb)*(np.log(1-U))
      return X
  \<close>
  \<open>lamb\<close> is a Python float, so \<^verbatim>\<open>1/lamb\<close> raises ZeroDivisionError at 0, after the
  draws have been made, and is an infinity when \<open>lamb\<close> is too small.
\<close>

definition inverse_cdf :: "real \<Rightarrow> fval \<Rightarrow> fval" where
  "inverse_cdf lamb u =
     f64_mul (f64_neg (round64 (1 / lamb))) (np_log (f64_sub (Finite 1) u))"

definition pseudo_exp :: "real \<Rightarrow> int \<Rightarrow> clock \<Rightarrow> py_error + fval list" where
  "pseudo_exp lamb sz clock =
     (case pseudo_uniform 0 1 (clock 0) sz of
        Inl e \<Rightarrow> Inl e
      | Inr U \<Rightarrow>
          if lamb = 0 then Inl ZeroDivisionError
          else Inr (map (inverse_cdf lamb) U))"

subsection \<open>Poisson\<close>

text \<open>
  \<^verbatim>\<open>
  def pseudo_poisson(alpha,size=1):
      poisson = []
      for _ in range(size):
          t = time.perf_counter()
          seed = int(10**9*float(str(t-int(t))[0:]))
          U = pseudo_uniform(seed=seed,size=5*alpha)
          X,P,i = 0,1,0
          while P >= np.exp(-alpha):
              P = U[i]*P
              X+=1
              i+=1
          poisson.append(X)
      return np.array(poisson)
  \<close>
  \<open>alpha\<close> is an integer (it sizes an array); numpy turns \<open>-alpha\<close> into a binary64
  number before taking \<^verbatim>\<open>exp\<close>. The \<^verbatim>\<open>while\<close> loop reads \<open>U[i]\<close> with \<open>i\<close>
  counting up from 0, so it ends after at most \<open>len(U)\<close> rounds: either the product has
  fallen below the threshold, or the read is out of range and raises IndexError. \<open>thr\<close>
  stands for \<^verbatim>\<open>np.exp(-alpha)\<close>.
\<close>

function poisson_while :: "fval \<Rightarrow> fval list \<Rightarrow> int \<Rightarrow> fval \<Rightarrow> nat \<Rightarrow> py_error + int" where
  "poisson_while thr U X P i =
     (if f64_le thr P
      then (if i < length U
            then poisson_while thr U (X + 1) (f64_mul (U ! i) P) (Suc i)
            else Inl IndexError)
      else Inr X)"
  by pat_completeness auto
termination
  by (relation "measure (\<lambda>(thr, U, X, P, i). length U - i)") auto

declare poisson_while.simps [simp del]

text \<open>One round of the \<^verbatim>\<open>for\<close> loop, from the seed it read.\<close>

definition poisson_threshold :: "int \<Rightarrow> fval" where
  "poisson_threshold alpha = np_exp (fl64 (- real_of_int alpha))"

definition poisson_outcome :: "int \<Rightarrow> int \<Rightarrow> py_error + int" where
  "poisson_outcome alpha seed =
     (case pseudo_uniform 0 1 seed (5 * alpha) of
        Inl e \<Rightarrow> Inl e
      | Inr U \<Rightarrow> poisson_while (poisson_threshold alpha) U 0 (Finite 1) 0)"

fun poisson_loop :: "int \<Rightarrow> clock \<Rightarrow> nat list \<Rightarrow> int list \<Rightarrow> py_error + int list" where
  "poisson_loop alpha clock [] poisson = Inr poisson"
| "poisson_loop alpha clock (k # ks) poisson =
     (case poisson_outcome alpha (clock k) of
        Inl e \<Rightarrow> Inl e
      | Inr X \<Rightarrow> poisson_loop alpha clock ks (poisson @ [X]))"

definition pseudo_poisson :: "int \<Rightarrow> int \<Rightarrow> clock \<Rightarrow> py_error + int list" where
  "pseudo_poisson alpha sz clock = poisson_loop alpha clock [0..<nat sz] []"

subsection \<open>Runs of the engine in a world\<close>

text \<open>
  To say that the engine does not depend on the clock, its run is also written as a
  step relation over the world a call runs in: the clock and the number of readings made
  so far. \<^verbatim>\<open>time.perf_counter()\<close> is the one operation that touches the world.
  \<open>engine_run\<close> follows \<^verbatim>\<open>pseudo_uniform_good\<close> statement by statement, one rule
  for each way the call can end; \<open>loop_run\<close> is its \<^verbatim>\<open>for\<close> loop. \<open>bernoulli_run\<close>
  is \<^verbatim>\<open>pseudo_bernoulli\<close> written the same way, with its clock reading.
\<close>

record world =
  clock_of :: clock
  readings :: nat

definition perf_counter :: "world \<Rightarrow> int \<times> world" where
  "perf_counter w = (clock_of w (readings w), w\<lparr>readings := Suc (readings w)\<rparr>)"

inductive loop_run ::
  "int \<Rightarrow> int \<Rightarrow> nat \<Rightarrow> nat \<Rightarrow> int \<Rightarrow> real list \<Rightarrow> world \<Rightarrow> real list \<times> world \<Rightarrow> bool" where
  loop_exit: "\<not> i < sz \<Longrightarrow> loop_run mult md sz i x U w (U, w)"
| loop_iter: "i < sz \<Longrightarrow> x' = (x * mult + 1) mod md
     \<Longrightarrow> loop_run mult md sz (Suc i) x' (U[i := py_truediv x' md]) w r
     \<Longrightarrow> loop_run mult md sz i x U w r"

inductive engine_run ::
  "int \<Rightarrow> int \<Rightarrow> int \<Rightarrow> int \<Rightarrow> world \<Rightarrow> (py_error + real list) \<times> world \<Rightarrow> bool" where
  raise_zeros: "np_zeros sz = Inl e \<Longrightarrow> engine_run mult md seed sz w (Inl e, w)"
| raise_mod: "np_zeros sz = Inr U \<Longrightarrow> md = 0
     \<Longrightarrow> engine_run mult md seed sz w (Inl ZeroDivisionError, w)"
| raise_store: "np_zeros sz = Inr U \<Longrightarrow> md \<noteq> 0 \<Longrightarrow> length U = 0
     \<Longrightarrow> engine_run mult md seed sz w (Inl IndexError, w)"
| returns: "np_zeros sz = Inr U \<Longrightarrow> md \<noteq> 0 \<Longrightarrow> length U \<noteq> 0
     \<Longrightarrow> x = (seed * mult + 1) mod md
     \<Longrightarrow> loop_run mult md (nat sz) 1 x (U[0 := py_truediv x md]) w (U', w')
     \<Longrightarrow> engine_run mult md seed sz w (Inr U', w')"

inductive bernoulli_run ::
  "real \<Rightarrow> int \<Rightarrow> world \<Rightarrow> (py_error + int list) \<times> world \<Rightarrow> bool" where
  bernoulli_call: "perf_counter w = (seed, w1)
     \<Longrightarrow> engine_run good_mult good_mod seed sz w1 (e, w2)
     \<Longrightarrow> bernoulli_run p sz w
           (case e of Inl err \<Rightarrow> Inl err
            | Inr U \<Rightarrow> Inr (map (indicator_le p) (map (scale 0 1) U)), w2)"

subsection \<open>Notions used to state the properties\<close>

text \<open>
  \<open>nearest_even y m\<close>: the integer \<open>m\<close> is what \<open>y\<close> rounds to. \<open>bin_exp x\<close> is
  the binary exponent of \<open>x\<close>. \<open>is_f64 x\<close>: the real \<open>x\<close> is a binary64 number.
\<close>

definition nearest_even :: "real \<Rightarrow> int \<Rightarrow> bool" where
  "nearest_even y m \<longleftrightarrow> \<bar>of_int m - y\<bar> < 1 / 2 \<or> (\<bar>of_int m - y\<bar> = 1 / 2 \<and> even m)"

definition bin_exp :: "real \<Rightarrow> int" where
  "bin_exp x = \<lfloor>log 2 \<bar>x\<bar>\<rfloor>"

definition is_f64 :: "real \<Rightarrow> bool" where
  "is_f64 x \<longleftrightarrow> fl64 x = x \<and> \<bar>x\<bar> < 2 ^ 1024"

text \<open>
  The draws of the default engine, as the recurrence gives them: what
  \<^verbatim>\<open>pseudo_uniform(seed=seed,size=size)\<close> returns when it returns.
\<close>

definition engine_draws :: "int \<Rightarrow> int \<Rightarrow> real list" where
  "engine_draws seed sz =
     map (\<lambda>i. py_truediv (lcg_state good_mult good_mod seed i) good_mod) [0..<nat sz]"

text \<open>
  \<open>run_prod U k\<close> is the value of \<open>P\<close> after \<open>k\<close> rounds of the Poisson loop on
  the draws \<open>U\<close>: the product of the first \<open>k\<close> draws, rounded at each step.
  \<open>first_below thr U k\<close>: \<open>k\<close> is the first number of rounds after which \<open>P\<close> is no
  longer at or above the threshold, and the draws suffice for it.
\<close>

fun run_prod :: "fval list \<Rightarrow> nat \<Rightarrow> fval" where
  "run_prod U 0 = Finite 1"
| "run_prod U (Suc k) = f64_mul (U ! k) (run_prod U k)"

definition first_below :: "fval \<Rightarrow> fval list \<Rightarrow> nat \<Rightarrow> bool" where
  "first_below thr U k \<longleftrightarrow>
     k \<le> length U \<and> \<not> f64_le thr (run_prod U k) \<and> (\<forall>j<k. f64_le thr (run_prod U j))"

text \<open>
  Clocks for the examples: a constant one, and one whose first seed makes the first draw
  0 and whose later seeds make it small.
\<close>

definition const_clock :: "int \<Rightarrow> clock" where
  "const_clock s k = s"

definition zero_seed :: int where
  "zero_seed = 739806647"

definition zero_then_small :: clock where
  "zero_then_small k = (if k = 0 then zero_seed else 1000)"

text \<open>Two worlds for the examples: different clocks, different numbers of readings.\<close>

definition world_a :: world where
  "world_a = \<lparr>clock_of = const_clock 0, readings = 0\<rparr>"

definition world_b :: world where
  "world_b = \<lparr>clock_of = const_clock 70278, readings = 7\<rparr>"

section \<open>Properties\<close>

subsection \<open>Rounding to binary64\<close>

lemma rne_nearest: "nearest_even y (rne y)"
proof -
  let ?f = "\<lfloor>y\<rfloor>"
  have f: "of_int ?f \<le> y" "y < of_int ?f + 1" by linarith+
  show ?thesis
  proof (cases "y - of_int ?f < 1 / 2")
    case True
    then have r: "rne y = ?f" by (simp add: rne_def)
    have "\<bar>of_int ?f - y\<bar> < 1 / 2" using True f by linarith
    then show ?thesis unfolding nearest_even_def r by blast
  next
    case a: False
    show ?thesis
    proof (cases "1 / 2 < y - of_int ?f")
      case True
      then have r: "rne y = ?f + 1" using a by (simp add: rne_def)
      have "\<bar>of_int (?f + 1) - y\<bar> < 1 / 2" using True f by simp
      then show ?thesis unfolding nearest_even_def r by blast
    next
      case False
      with a have h: "y - of_int ?f = 1 / 2" by linarith
      show ?thesis
      proof (cases "even ?f")
        case True
        then have r: "rne y = ?f" using h by (simp add: rne_def)
        have "\<bar>of_int ?f - y\<bar> = 1 / 2" using h by linarith
        with True show ?thesis unfolding nearest_even_def r by blast
      next
        case False
        then have r: "rne y = ?f + 1" using h by (simp add: rne_def)
        have "\<bar>of_int (?f + 1) - y\<bar> = 1 / 2" using h by simp
        moreover have "even (?f + 1)" using False by simp
        ultimately show ?thesis unfolding nearest_even_def r by blast
      qed
    qed
  qed
qed

lemma nearest_even_unique:
  assumes "nearest_even y m" "nearest_even y n"
  shows "m = n"
proof (rule ccontr)
  assume ne: "m \<noteq> n"
  have dm: "\<bar>of_int m - y\<bar> \<le> 1 / 2" and dn: "\<bar>of_int n - y\<bar> \<le> 1 / 2"
    using assms by (auto simp: nearest_even_def)
  have "\<bar>real_of_int m - of_int n\<bar> \<le> 1" using dm dn by linarith
  then have "\<bar>m - n\<bar> \<le> 1" by linarith
  with ne have d1: "\<bar>m - n\<bar> = 1" by linarith
  then have "\<bar>real_of_int m - of_int n\<bar> = 1" by linarith
  with dm dn have "\<bar>of_int m - y\<bar> = 1 / 2" "\<bar>of_int n - y\<bar> = 1 / 2" by linarith+
  with assms have "even m" "even n" by (auto simp: nearest_even_def)
  with d1 show False by presburger
qed

lemma rne_eqI: "nearest_even y m \<Longrightarrow> rne y = m"
  using rne_nearest nearest_even_unique by blast

lemma rne_of_int [simp]: "rne (of_int n) = n"
  by (rule rne_eqI) (simp add: nearest_even_def)

lemma rne_zero [simp]: "rne 0 = 0"
  using rne_of_int [of 0] by simp

lemma rne_minus: "rne (- y) = - rne y"
proof (rule rne_eqI)
  have "nearest_even y (rne y)" by (rule rne_nearest)
  then show "nearest_even (- y) (- rne y)"
    by (simp add: nearest_even_def abs_if split: if_splits)
qed

lemma rne_le: "y \<le> of_int n \<Longrightarrow> rne y \<le> n"
proof -
  assume a: "y \<le> of_int n"
  have "\<bar>of_int (rne y) - y\<bar> \<le> 1 / 2" using rne_nearest [of y] by (auto simp: nearest_even_def)
  with a have "real_of_int (rne y) \<le> of_int n + 1 / 2" by linarith
  then show ?thesis by linarith
qed

lemma rne_ge: "of_int n \<le> y \<Longrightarrow> n \<le> rne y"
proof -
  assume a: "of_int n \<le> y"
  have "\<bar>of_int (rne y) - y\<bar> \<le> 1 / 2" using rne_nearest [of y] by (auto simp: nearest_even_def)
  with a have "real_of_int n \<le> of_int (rne y) + 1 / 2" by linarith
  then show ?thesis by linarith
qed

lemma rne_mono: "x \<le> y \<Longrightarrow> rne x \<le> rne y"
proof (rule ccontr)
  assume xy: "x \<le> y" and "\<not> rne x \<le> rne y"
  then have lt: "rne y + 1 \<le> rne x" by simp
  have nx: "nearest_even x (rne x)" and ny: "nearest_even y (rne y)" by (rule rne_nearest)+
  have dx: "\<bar>of_int (rne x) - x\<bar> \<le> 1 / 2" and dy: "\<bar>of_int (rne y) - y\<bar> \<le> 1 / 2"
    using nx ny by (auto simp: nearest_even_def)
  from lt have l: "real_of_int (rne y) + 1 \<le> of_int (rne x)" by linarith
  with dx dy xy have e1: "of_int (rne x) - x = 1 / 2" and e2: "y - of_int (rne y) = 1 / 2"
    and e3: "real_of_int (rne x) = of_int (rne y) + 1" by linarith+
  from e1 nx have "even (rne x)" by (auto simp: nearest_even_def)
  moreover from e2 ny have "even (rne y)" by (auto simp: nearest_even_def)
  moreover from e3 have "rne x = rne y + 1" by linarith
  ultimately show False by presburger
qed

lemma ulp_exp_bin_exp: "ulp_exp x = max (bin_exp x) (- 1022) - 52"
  by (simp add: ulp_exp_def bin_exp_def)

lemma bin_exp_iff:
  assumes "x \<noteq> 0"
  shows "bin_exp x = e \<longleftrightarrow> 2 powi e \<le> \<bar>x\<bar> \<and> \<bar>x\<bar> < 2 powi (e + 1)"
proof -
  have "\<lfloor>log 2 \<bar>x\<bar>\<rfloor> = e \<longleftrightarrow> 2 powr (real_of_int e) \<le> \<bar>x\<bar> \<and> \<bar>x\<bar> < 2 powr (real_of_int e + 1)"
    using floor_log_eq_powr_iff [of "\<bar>x\<bar>" 2 e] assms by simp
  moreover have "(2::real) powr (real_of_int e) = 2 powi e"
    by (rule powr_real_of_int') simp_all
  moreover have "(2::real) powr (real_of_int e + 1) = 2 powi (e + 1)"
    using powr_real_of_int' [of "2::real" "e + 1"] by simp
  ultimately show ?thesis by (simp add: bin_exp_def)
qed

lemma bin_exp_bounds:
  "x \<noteq> 0 \<Longrightarrow> 2 powi bin_exp x \<le> \<bar>x\<bar> \<and> \<bar>x\<bar> < 2 powi (bin_exp x + 1)"
  using bin_exp_iff [of x "bin_exp x"] by simp

lemma bin_exp_mono: "x \<noteq> 0 \<Longrightarrow> \<bar>x\<bar> \<le> \<bar>y\<bar> \<Longrightarrow> bin_exp x \<le> bin_exp y"
  unfolding bin_exp_def by (intro floor_mono log_mono) simp_all

lemma bin_exp_less: "x \<noteq> 0 \<Longrightarrow> \<bar>x\<bar> < 2 powi n \<Longrightarrow> bin_exp x < n"
proof (rule ccontr)
  assume x: "x \<noteq> 0" and lt: "\<bar>x\<bar> < 2 powi n" and "\<not> bin_exp x < n"
  then have "n \<le> bin_exp x" by simp
  then have "(2::real) powi n \<le> 2 powi bin_exp x" by (intro power_int_increasing) simp_all
  with bin_exp_bounds [OF x] lt show False by linarith
qed

lemma bin_exp_minus [simp]: "bin_exp (- x) = bin_exp x"
  by (simp add: bin_exp_def)

lemma ulp_exp_minus [simp]: "ulp_exp (- x) = ulp_exp x"
  by (simp add: ulp_exp_def)

lemma ulp_exp_mono: "x \<noteq> 0 \<Longrightarrow> \<bar>x\<bar> \<le> \<bar>y\<bar> \<Longrightarrow> ulp_exp x \<le> ulp_exp y"
  using bin_exp_mono [of x y] by (simp add: ulp_exp_bin_exp)

lemma fl64_zero [simp]: "fl64 0 = 0"
  by (simp add: fl64_def)

lemma fl64_minus: "fl64 (- x) = - fl64 x"
  by (simp add: fl64_def rne_minus)

lemma two_powi_pos [simp]: "0 < (2::real) powi n"
  by simp

lemma fl64_grid_le:
  assumes "x \<le> of_int k * 2 powi ulp_exp x"
  shows "fl64 x \<le> of_int k * 2 powi ulp_exp x"
proof (cases "x = 0")
  case True
  with assms show ?thesis by simp
next
  case False
  have "x / 2 powi ulp_exp x \<le> of_int k" using assms by (simp add: field_simps)
  then have "rne (x / 2 powi ulp_exp x) \<le> k" by (rule rne_le)
  then have "real_of_int (rne (x / 2 powi ulp_exp x)) \<le> of_int k" by simp
  then have "real_of_int (rne (x / 2 powi ulp_exp x)) * 2 powi ulp_exp x \<le> of_int k * 2 powi ulp_exp x"
    by (intro mult_right_mono) simp_all
  with False show ?thesis by (simp add: fl64_def)
qed

lemma fl64_grid_ge:
  assumes "of_int k * 2 powi ulp_exp x \<le> x"
  shows "of_int k * 2 powi ulp_exp x \<le> fl64 x"
proof (cases "x = 0")
  case True
  with assms show ?thesis by simp
next
  case False
  have "of_int k \<le> x / 2 powi ulp_exp x" using assms by (simp add: field_simps)
  then have "k \<le> rne (x / 2 powi ulp_exp x)" by (rule rne_ge)
  then have "real_of_int k \<le> of_int (rne (x / 2 powi ulp_exp x))" by simp
  then have "of_int k * 2 powi ulp_exp x \<le> real_of_int (rne (x / 2 powi ulp_exp x)) * 2 powi ulp_exp x"
    by (intro mult_right_mono) simp_all
  with False show ?thesis by (simp add: fl64_def)
qed

lemma fl64_nonneg: "0 \<le> x \<Longrightarrow> 0 \<le> fl64 x"
  using fl64_grid_ge [of 0 x] by simp

lemma fl64_nonpos: "x \<le> 0 \<Longrightarrow> fl64 x \<le> 0"
  using fl64_grid_le [of x 0] by simp

lemma binade_top: "2 powi (max (bin_exp x) (- 1022) + 1) = (2 ^ 53 :: real) * 2 powi ulp_exp x"
proof -
  have "max (bin_exp x) (- 1022) + 1 = 53 + ulp_exp x" unfolding ulp_exp_bin_exp by linarith
  then have "(2::real) powi (max (bin_exp x) (- 1022) + 1) = 2 powi (53 + ulp_exp x)"
    by (rule arg_cong)
  also have "\<dots> = 2 powi 53 * 2 powi ulp_exp x" by (rule power_int_add) simp
  finally show ?thesis by simp
qed

lemma binade_bottom: "2 powi (max (bin_exp x) (- 1022)) = (2 ^ 52 :: real) * 2 powi ulp_exp x"
proof -
  have "max (bin_exp x) (- 1022) = 52 + ulp_exp x" unfolding ulp_exp_bin_exp by linarith
  then have "(2::real) powi (max (bin_exp x) (- 1022)) = 2 powi (52 + ulp_exp x)"
    by (rule arg_cong)
  also have "\<dots> = 2 powi 52 * 2 powi ulp_exp x" by (rule power_int_add) simp
  finally show ?thesis by simp
qed

lemma abs_less_binade_top: "x \<noteq> 0 \<Longrightarrow> \<bar>x\<bar> < 2 powi (max (bin_exp x) (- 1022) + 1)"
proof -
  assume x: "x \<noteq> 0"
  have "(2::real) powi (bin_exp x + 1) \<le> 2 powi (max (bin_exp x) (- 1022) + 1)"
    by (intro power_int_increasing) simp_all
  with bin_exp_bounds [OF x] show ?thesis by linarith
qed

lemma fl64_pos_le_top: "0 < x \<Longrightarrow> fl64 x \<le> 2 powi (max (bin_exp x) (- 1022) + 1)"
proof -
  assume x: "0 < x"
  then have "x \<le> of_int (2 ^ 53) * 2 powi ulp_exp x"
    using abs_less_binade_top [of x] by (simp add: binade_top)
  then have "fl64 x \<le> of_int (2 ^ 53) * 2 powi ulp_exp x" by (rule fl64_grid_le)
  then show ?thesis by (simp add: binade_top)
qed

lemma fl64_pos_ge_bottom:
  "0 < x \<Longrightarrow> - 1022 \<le> bin_exp x \<Longrightarrow> 2 powi bin_exp x \<le> fl64 x"
proof -
  assume x: "0 < x" and n: "- 1022 \<le> bin_exp x"
  then have m: "max (bin_exp x) (- 1022) = bin_exp x" by simp
  have "2 powi bin_exp x \<le> x" using bin_exp_bounds [of x] x by simp
  then have "of_int (2 ^ 52) * 2 powi ulp_exp x \<le> x"
    using binade_bottom [of x] m by simp
  then have "of_int (2 ^ 52) * 2 powi ulp_exp x \<le> fl64 x" by (rule fl64_grid_ge)
  then show ?thesis using binade_bottom [of x] m by simp
qed

lemma fl64_mono_pos:
  assumes "0 < x" "x \<le> y"
  shows "fl64 x \<le> fl64 y"
proof -
  have y: "0 < y" using assms by simp
  have q: "ulp_exp x \<le> ulp_exp y" using assms by (intro ulp_exp_mono) simp_all
  show ?thesis
  proof (cases "ulp_exp x = ulp_exp y")
    case True
    have "x / 2 powi ulp_exp y \<le> y / 2 powi ulp_exp y"
      using assms(2) by (simp add: divide_right_mono)
    then have "rne (x / 2 powi ulp_exp y) \<le> rne (y / 2 powi ulp_exp y)" by (rule rne_mono)
    then have "real_of_int (rne (x / 2 powi ulp_exp y)) * 2 powi ulp_exp y
                 \<le> real_of_int (rne (y / 2 powi ulp_exp y)) * 2 powi ulp_exp y"
      by (intro mult_right_mono) simp_all
    with True assms y show ?thesis by (simp add: fl64_def)
  next
    case False
    with q have lt: "max (bin_exp x) (- 1022) < max (bin_exp y) (- 1022)"
      unfolding ulp_exp_bin_exp by linarith
    then have ey: "max (bin_exp y) (- 1022) = bin_exp y" "- 1022 \<le> bin_exp y" by linarith+
    have "fl64 x \<le> 2 powi (max (bin_exp x) (- 1022) + 1)" using assms(1) by (rule fl64_pos_le_top)
    also have "\<dots> \<le> 2 powi bin_exp y"
    proof (rule power_int_increasing)
      show "max (bin_exp x) (- 1022) + 1 \<le> bin_exp y" using lt ey by linarith
    qed simp
    also have "\<dots> \<le> fl64 y" using y ey(2) by (rule fl64_pos_ge_bottom)
    finally show ?thesis .
  qed
qed

lemma fl64_mono: "x \<le> y \<Longrightarrow> fl64 x \<le> fl64 y"
proof -
  assume xy: "x \<le> y"
  consider "0 < x" | "x \<le> 0" "0 \<le> y" | "y < 0" by linarith
  then show ?thesis
  proof cases
    case 1
    then show ?thesis using xy by (rule fl64_mono_pos)
  next
    case 2
    then show ?thesis using fl64_nonpos [of x] fl64_nonneg [of y] by linarith
  next
    case 3
    then have "0 < - y" "- y \<le> - x" using xy by simp_all
    then have "fl64 (- y) \<le> fl64 (- x)" by (rule fl64_mono_pos)
    then show ?thesis by (simp add: fl64_minus)
  qed
qed

lemma ulp_exp_normalI:
  assumes "2 ^ 52 \<le> \<bar>x / 2 powi q\<bar>" "\<bar>x / 2 powi q\<bar> < 2 ^ 53" "- 1074 \<le> q"
  shows "ulp_exp x = q"
proof -
  have x0: "x \<noteq> 0" using assms(1) by auto
  have ax: "\<bar>x / 2 powi q\<bar> = \<bar>x\<bar> / 2 powi q" by (simp add: abs_divide)
  have lo: "2 powi (q + 52) \<le> \<bar>x\<bar>"
  proof -
    have "(2::real) powi (q + 52) = 2 powi q * 2 powi 52" by (rule power_int_add) simp
    then show ?thesis using assms(1) ax by (simp add: field_simps)
  qed
  have hi: "\<bar>x\<bar> < 2 powi (q + 52 + 1)"
  proof -
    have "(2::real) powi (q + 53) = 2 powi q * 2 powi 53" by (rule power_int_add) simp
    moreover have "q + 52 + 1 = q + 53" by simp
    ultimately show ?thesis using assms(2) ax by (simp add: field_simps)
  qed
  have "bin_exp x = q + 52" using bin_exp_iff [OF x0, of "q + 52"] lo hi by simp
  then show ?thesis using assms(3) unfolding ulp_exp_bin_exp by linarith
qed

lemma fl64_normal_eval:
  assumes "2 ^ 52 \<le> \<bar>x / 2 powi q\<bar>" "\<bar>x / 2 powi q\<bar> < 2 ^ 53" "- 1074 \<le> q"
    and "nearest_even (x / 2 powi q) m"
  shows "fl64 x = of_int m * 2 powi q"
proof -
  have x0: "x \<noteq> 0" using assms(1) by auto
  have "ulp_exp x = q" using assms(1,2,3) by (rule ulp_exp_normalI)
  moreover have "rne (x / 2 powi q) = m" using assms(4) by (rule rne_eqI)
  ultimately show ?thesis using x0 by (simp add: fl64_def)
qed



lemma fl64_on_grid:
  assumes "x = of_int k * 2 powi q" "ulp_exp x \<le> q"
  shows "fl64 x = x"
proof (cases "x = 0")
  case True
  then show ?thesis by simp
next
  case False
  define d where "d = nat (q - ulp_exp x)"
  define g :: real where "g = 2 powi ulp_exp x"
  have g: "0 < g" by (simp add: g_def)
  have qd: "q = ulp_exp x + int d" using assms(2) by (simp add: d_def)
  have "(2::real) powi (ulp_exp x + int d) = 2 powi ulp_exp x * 2 powi (int d)"
    by (rule power_int_add) simp
  then have e: "(2::real) powi q = g * 2 ^ d" using qd by (simp add: g_def)
  have xe: "x = of_int (k * 2 ^ d) * g" using assms(1) e by simp
  then have "x / g = of_int (k * 2 ^ d)" using g by simp
  then have "rne (x / g) = k * 2 ^ d" by (simp only: rne_of_int)
  then have "fl64 x = of_int (k * 2 ^ d) * g" using False by (simp add: fl64_def g_def)
  with xe show ?thesis by simp
qed

lemma bin_exp_two_powi: "bin_exp (2 powi n) = n"
proof -
  have "(2::real) powi n < 2 powi (n + 1)" by (intro power_int_strict_increasing) simp_all
  then show ?thesis using bin_exp_iff [of "2 powi n" n] by simp
qed

lemma fl64_two_powi: "- 1074 \<le> n \<Longrightarrow> fl64 (2 powi n) = 2 powi n"
proof -
  assume n: "- 1074 \<le> n"
  have "ulp_exp (2 powi n) \<le> n" using n unfolding ulp_exp_bin_exp bin_exp_two_powi by linarith
  moreover have "(2::real) powi n = of_int 1 * 2 powi n" by simp
  ultimately show ?thesis by (rule fl64_on_grid [rotated])
qed

lemma rne_abs_le_two53: "x \<noteq> 0 \<Longrightarrow> \<bar>rne (x / 2 powi ulp_exp x)\<bar> \<le> 2 ^ 53"
proof -
  assume x: "x \<noteq> 0"
  define y where "y = x / 2 powi ulp_exp x"
  have "\<bar>x\<bar> < 2 ^ 53 * 2 powi ulp_exp x"
    using abs_less_binade_top [OF x] by (simp add: binade_top)
  then have "\<bar>x\<bar> / 2 powi ulp_exp x < 2 ^ 53" by (simp add: field_simps)
  then have b: "\<bar>y\<bar> < 2 ^ 53" by (simp add: abs_divide y_def)
  have "y \<le> of_int (2 ^ 53)" using b by simp
  then have u: "rne y \<le> 2 ^ 53" by (rule rne_le)
  have "of_int (- (2 ^ 53)) \<le> y" using b by simp
  then have l: "- (2 ^ 53) \<le> rne y" by (rule rne_ge)
  from u l show ?thesis unfolding y_def by linarith
qed

lemma fl64_idem: "fl64 (fl64 x) = fl64 x"
proof (cases "x = 0")
  case True
  then show ?thesis by simp
next
  case False
  define q where "q = ulp_exp x"
  define M where "M = rne (x / 2 powi q)"
  have z: "fl64 x = of_int M * 2 powi q" using False by (simp add: fl64_def q_def M_def)
  have Mb: "\<bar>M\<bar> \<le> 2 ^ 53" using rne_abs_le_two53 [OF False] by (simp add: M_def q_def)
  have top: "(2::real) powi (max (bin_exp x) (- 1022) + 1) = 2 ^ 53 * 2 powi q"
    unfolding q_def by (rule binade_top)
  show ?thesis
  proof (cases "\<bar>M\<bar> = 2 ^ 53")
    case True
    then have "M = 2 ^ 53 \<or> M = - (2 ^ 53)" by linarith
    then have "fl64 x = 2 powi (max (bin_exp x) (- 1022) + 1)
               \<or> fl64 x = - (2 powi (max (bin_exp x) (- 1022) + 1))"
      unfolding z top by auto
    moreover have "- 1074 \<le> max (bin_exp x) (- 1022) + 1" by simp
    ultimately show ?thesis using fl64_two_powi [of "max (bin_exp x) (- 1022) + 1"]
      by (auto simp: fl64_minus)
  next
    case ne: False
    show ?thesis
    proof (cases "M = 0")
      case True
      then show ?thesis using z by simp
    next
      case M0: False
      have zne: "fl64 x \<noteq> 0" using M0 z by simp
      have "\<bar>M\<bar> < 2 ^ 53" using Mb ne by linarith
      then have "real_of_int \<bar>M\<bar> < of_int (2 ^ 53)" by (rule iffD2 [OF of_int_less_iff])
      then have "\<bar>real_of_int M\<bar> < 2 ^ 53" by simp
      then have "\<bar>real_of_int M\<bar> * 2 powi q < 2 ^ 53 * 2 powi q"
        by (intro mult_strict_right_mono) simp_all
      then have "\<bar>fl64 x\<bar> < 2 powi (max (bin_exp x) (- 1022) + 1)"
        unfolding z top by (simp add: abs_mult)
      with zne have "bin_exp (fl64 x) < max (bin_exp x) (- 1022) + 1" by (rule bin_exp_less)
      then have "ulp_exp (fl64 x) \<le> q" unfolding q_def ulp_exp_bin_exp by linarith
      with z show ?thesis by (rule fl64_on_grid)
    qed
  qed
qed

lemma fl64_dyadic:
  assumes "\<bar>k\<bar> < 2 ^ 53" "- 1074 \<le> q"
  shows "fl64 (of_int k * 2 powi q) = of_int k * 2 powi q"
proof (cases "k = 0")
  case True
  then show ?thesis by simp
next
  case False
  define x :: real where "x = of_int k * 2 powi q"
  have x0: "x \<noteq> 0" using False by (simp add: x_def)
  have "real_of_int \<bar>k\<bar> < of_int (2 ^ 53)" using assms(1) by (rule iffD2 [OF of_int_less_iff])
  then have "\<bar>real_of_int k\<bar> < 2 ^ 53" by simp
  then have "\<bar>real_of_int k\<bar> * 2 powi q < 2 ^ 53 * 2 powi q"
    by (intro mult_strict_right_mono) simp_all
  moreover have "(2::real) powi (53 + q) = 2 powi 53 * 2 powi q" by (rule power_int_add) simp
  ultimately have "\<bar>x\<bar> < 2 powi (53 + q)" by (simp add: x_def abs_mult)
  with x0 have "bin_exp x < 53 + q" by (rule bin_exp_less)
  then have "ulp_exp x \<le> q" using assms(2) unfolding ulp_exp_bin_exp by linarith
  with x_def have "fl64 x = x" by (rule fl64_on_grid)
  then show ?thesis by (simp add: x_def)
qed

lemma fl64_of_int: "\<bar>k\<bar> < 2 ^ 53 \<Longrightarrow> fl64 (of_int k) = of_int k"
  using fl64_dyadic [of k 0] by simp

lemma fl64_one [simp]: "fl64 1 = 1"
  using fl64_of_int [of 1] by simp

lemma fl64_eval:
  assumes "y = x * 2 ^ n" "2 ^ 52 \<le> \<bar>y\<bar>" "\<bar>y\<bar> < 2 ^ 53" "n \<le> 1074" "nearest_even y m"
  shows "fl64 x = of_int m / 2 ^ n"
proof -
  have p: "(2::real) powi (- int n) = 1 / 2 ^ n" by (simp add: power_int_minus_divide)
  then have y: "x / 2 powi (- int n) = y" using assms(1) by simp
  have "fl64 x = of_int m * 2 powi (- int n)"
    using assms(2,3,4,5) by (intro fl64_normal_eval) (simp_all add: y)
  then show ?thesis using p by simp
qed

lemma fl64_unit_interval: "0 \<le> x \<Longrightarrow> x \<le> 1 \<Longrightarrow> 0 \<le> fl64 x \<and> fl64 x \<le> 1"
  using fl64_mono [of 0 x] fl64_mono [of x 1] by simp

lemma round64_Finite: "\<bar>fl64 x\<bar> < 2 ^ 1024 \<Longrightarrow> round64 x = Finite (fl64 x)"
  by (simp add: round64_def)

lemma round64_unit: "0 \<le> x \<Longrightarrow> x \<le> 1 \<Longrightarrow> round64 x = Finite (fl64 x)"
proof -
  assume "0 \<le> x" "x \<le> 1"
  then have "0 \<le> fl64 x \<and> fl64 x \<le> 1" by (rule fl64_unit_interval)
  moreover have "(1::real) < 2 ^ 1024" by simp
  ultimately have "\<bar>fl64 x\<bar> < 2 ^ 1024" by linarith
  then show ?thesis by (rule round64_Finite)
qed

lemma is_f64_fl64: "\<bar>fl64 x\<bar> < 2 ^ 1024 \<Longrightarrow> is_f64 (fl64 x)"
  by (simp add: is_f64_def fl64_idem)

lemma fl64_le_f64: "is_f64 c \<Longrightarrow> x \<le> c \<Longrightarrow> fl64 x \<le> c"
  using fl64_mono [of x c] by (simp add: is_f64_def)

lemma fl64_ge_f64: "is_f64 c \<Longrightarrow> c \<le> x \<Longrightarrow> c \<le> fl64 x"
  using fl64_mono [of c x] by (simp add: is_f64_def)

subsection \<open>The loop computes the recurrence\<close>

lemma length_lcg_loop: "length (lcg_loop mult md sz i x U) = length U"
proof (induction mult md sz i x U rule: lcg_loop.induct)
  case (1 mult md sz i x U)
  show ?case
  proof (cases "i < sz")
    case True
    with "1" show ?thesis by (simp add: lcg_loop.simps [of mult md sz i x U] Let_def)
  next
    case False
    then show ?thesis by (simp add: lcg_loop.simps [of mult md sz i x U])
  qed
qed

lemma lcg_loop_below: "j < i \<Longrightarrow> lcg_loop mult md sz i x U ! j = U ! j"
proof (induction mult md sz i x U rule: lcg_loop.induct)
  case (1 mult md sz i x U)
  show ?case
  proof (cases "i < sz")
    case True
    with "1" show ?thesis by (simp add: lcg_loop.simps [of mult md sz i x U] Let_def)
  next
    case False
    then show ?thesis by (simp add: lcg_loop.simps [of mult md sz i x U])
  qed
qed

lemma lcg_loop_nth:
  assumes "0 < i" "x = lcg_state mult md seed (i - 1)" "sz = length U" "i \<le> j" "j < sz"
  shows "lcg_loop mult md sz i x U ! j = py_truediv (lcg_state mult md seed j) md"
  using assms
proof (induction mult md sz i x U rule: lcg_loop.induct)
  case (1 mult md sz i x U)
  from "1.prems" have lt: "i < sz" by simp
  let ?x' = "(x * mult + 1) mod md"
  let ?U' = "U[i := py_truediv ?x' md]"
  have x': "?x' = lcg_state mult md seed i"
    using "1.prems"(1,2) by (cases i) simp_all
  have unfold: "lcg_loop mult md sz i x U = lcg_loop mult md sz (Suc i) ?x' ?U'"
    using lt by (simp add: lcg_loop.simps [of mult md sz i x U] Let_def)
  show ?case
  proof (cases "j = i")
    case True
    have "lcg_loop mult md sz (Suc i) ?x' ?U' ! j = ?U' ! j"
      using True by (simp add: lcg_loop_below)
    also have "\<dots> = py_truediv ?x' md"
      using True lt "1.prems"(3) by simp
    finally show ?thesis using unfold x' True by simp
  next
    case False
    with "1.prems" have "Suc i \<le> j" by simp
    moreover have "?x' = lcg_state mult md seed (Suc i - 1)" using x' by simp
    moreover have "sz = length ?U'" using "1.prems"(3) by simp
    ultimately have "lcg_loop mult md sz (Suc i) ?x' ?U' ! j
                       = py_truediv (lcg_state mult md seed j) md"
      using "1.IH" [OF lt refl] "1.prems"(5) by simp
    then show ?thesis using unfold by simp
  qed
qed

lemma pseudo_uniform_good_Inr:
  assumes "md \<noteq> 0" "1 \<le> sz"
  shows "pseudo_uniform_good mult md seed sz
           = Inr (map (\<lambda>i. py_truediv (lcg_state mult md seed i) md) [0..<nat sz])"
proof -
  let ?Z = "replicate (nat sz) (0::real)"
  let ?x = "(seed * mult + 1) mod md"
  let ?U = "lcg_loop mult md (nat sz) 1 ?x (?Z[0 := py_truediv ?x md])"
  have run: "pseudo_uniform_good mult md seed sz = Inr ?U"
    using assms by (simp add: pseudo_uniform_good_def np_zeros_def Let_def)
  have len: "length ?U = nat sz" by (simp add: length_lcg_loop)
  have nth: "?U ! j = py_truediv (lcg_state mult md seed j) md"
    if "j < nat sz" for j
  proof (cases "j = 0")
    case True
    have "?U ! 0 = (?Z[0 := py_truediv ?x md]) ! 0"
      by (rule lcg_loop_below) simp
    then show ?thesis using True that by simp
  next
    case False
    show ?thesis
      by (rule lcg_loop_nth) (use False that in simp_all)
  qed
  have "?U = map (\<lambda>i. py_truediv (lcg_state mult md seed i) md) [0..<nat sz]"
  proof (rule nth_equalityI)
    show "length ?U = length (map (\<lambda>i. py_truediv (lcg_state mult md seed i) md) [0..<nat sz])"
      using len by simp
  next
    fix j assume "j < length ?U"
    with len have "j < nat sz" by metis
    then show "?U ! j = map (\<lambda>i. py_truediv (lcg_state mult md seed i) md) [0..<nat sz] ! j"
      using nth [of j] by simp
  qed
  with run show ?thesis by simp
qed

lemma lcg_state_range: "0 < md \<Longrightarrow> 0 \<le> lcg_state mult md seed i \<and> lcg_state mult md seed i < md"
  by (cases i) simp_all

lemma pseudo_uniform_bad_eq: "pseudo_uniform_bad = pseudo_uniform_good"
  by (intro ext) (simp add: pseudo_uniform_bad_def pseudo_uniform_good_def)

subsection \<open>The quotient of the engine\<close>

lemma py_truediv_range:
  assumes "0 < md" "0 \<le> x" "x < md"
  shows "0 \<le> py_truediv x md \<and> py_truediv x md \<le> 1"
proof -
  have "0 \<le> real_of_int x / real_of_int md" using assms by simp
  moreover have "real_of_int x / real_of_int md \<le> 1" using assms by simp
  ultimately show ?thesis unfolding py_truediv_def by (rule fl64_unit_interval)
qed

lemma py_truediv_idem: "fl64 (py_truediv x md) = py_truediv x md"
  by (simp add: py_truediv_def fl64_idem)

lemma one_minus_ulp: "is_f64 (1 - 1 / 2 ^ 53)"
proof -
  have "fl64 (of_int (2 ^ 53 - 1) * 2 powi (- 53)) = of_int (2 ^ 53 - 1) * 2 powi (- 53)"
    by (rule fl64_dyadic) simp_all
  moreover have "real_of_int (2 ^ 53 - 1) * 2 powi (- 53) = 1 - 1 / 2 ^ 53"
    by (simp add: power_int_minus_divide field_simps)
  ultimately show ?thesis by (simp add: is_f64_def)
qed

lemma py_truediv_below_one:
  assumes "0 < md" "md \<le> 2 ^ 53" "0 \<le> x" "x < md"
  shows "py_truediv x md < 1"
proof -
  have m: "0 < real_of_int md" "real_of_int md \<le> 2 ^ 53"
    using assms(1,2) by (simp_all add: of_int_le_numeral_power_cancel_iff)
  have "real_of_int x \<le> real_of_int md - 1" using assms(4) by linarith
  then have "real_of_int x / real_of_int md \<le> (real_of_int md - 1) / real_of_int md"
    using m(1) by (simp add: divide_right_mono)
  also have "\<dots> = 1 - 1 / real_of_int md" using m(1) by (simp add: field_simps)
  also have "\<dots> \<le> 1 - 1 / 2 ^ 53"
  proof -
    have "1 / (2 ^ 53 :: real) \<le> 1 / real_of_int md" using m by (intro divide_left_mono) simp_all
    then show ?thesis by linarith
  qed
  finally have "py_truediv x md \<le> 1 - 1 / 2 ^ 53"
    unfolding py_truediv_def by (rule fl64_le_f64 [OF one_minus_ulp])
  then show ?thesis by (simp add: field_simps)
qed

lemma large_modulus_quotient: "py_truediv (2 ^ 60 - 1) (2 ^ 60) = 1"
proof -
  let ?x = "real_of_int (2 ^ 60 - 1) / real_of_int (2 ^ 60)"
  have "fl64 ?x = of_int (2 ^ 53) / 2 ^ 53"
    by (rule fl64_eval [where y = "?x * 2 ^ 53"]) (simp_all add: nearest_even_def)
  then show ?thesis by (simp add: py_truediv_def)
qed

lemma bad_config_quotients:
  "py_truediv 5 11 = 8188362958855447 / 2 ^ 54"
  "py_truediv 4 11 = 6550690367084358 / 2 ^ 54"
  "py_truediv 10 11 = 8188362958855447 / 2 ^ 53"
proof -
  have "fl64 (5 / 11) = of_int 8188362958855447 / 2 ^ 54"
    by (rule fl64_eval [where y = "5 / 11 * 2 ^ 54"]) (simp_all add: nearest_even_def)
  then show "py_truediv 5 11 = 8188362958855447 / 2 ^ 54" by (simp add: py_truediv_def)
  have "fl64 (4 / 11) = of_int 6550690367084358 / 2 ^ 54"
    by (rule fl64_eval [where y = "4 / 11 * 2 ^ 54"]) (simp_all add: nearest_even_def)
  then show "py_truediv 4 11 = 6550690367084358 / 2 ^ 54" by (simp add: py_truediv_def)
  have "fl64 (10 / 11) = of_int 8188362958855447 / 2 ^ 53"
    by (rule fl64_eval [where y = "10 / 11 * 2 ^ 53"]) (simp_all add: nearest_even_def)
  then show "py_truediv 10 11 = 8188362958855447 / 2 ^ 53" by (simp add: py_truediv_def)
qed

lemma bad_config_three:
  "pseudo_uniform_good 5 11 3 3
     = Inr [8188362958855447 / 2 ^ 54, 6550690367084358 / 2 ^ 54, 8188362958855447 / 2 ^ 53]"
proof -
  have "pseudo_uniform_good 5 11 3 3 = Inr [py_truediv 5 11, py_truediv 4 11, py_truediv 10 11]"
    by (simp add: pseudo_uniform_good_def np_zeros_def lcg_loop.simps Let_def eval_nat_numeral)
  then show ?thesis by (simp only: bad_config_quotients)
qed

subsection \<open>Properties of the engine\<close>

text \<open>
  Claim C1 says that every value of the engine is below 1. The quotient \<^verbatim>\<open>x/mod\<close> is
  rounded to binary64, and with the modulus \<open>2\<^sup>6\<^sup>0\<close>, the multiplier 1 and the seed
  \<open>2\<^sup>6\<^sup>0 - 2\<close> the state is \<open>2\<^sup>6\<^sup>0 - 1\<close> and the value returned is 1.
\<close>

theorem engine_reaches_one: "pseudo_uniform_good 1 (2 ^ 60) (2 ^ 60 - 2) 1 = Inr [1]"
proof -
  have "pseudo_uniform_good 1 (2 ^ 60) (2 ^ 60 - 2) 1 = Inr [py_truediv (2 ^ 60 - 1) (2 ^ 60)]"
    by (simp add: pseudo_uniform_good_def np_zeros_def lcg_loop.simps Let_def)
  then show ?thesis by (simp only: large_modulus_quotient)
qed

text \<open>
  Claim C1, as the code has it. With a positive modulus and a requested count of at
  least 1, the engine (\<^verbatim>\<open>pseudo_uniform_good\<close>, and \<^verbatim>\<open>pseudo_uniform_bad\<close> alike)
  returns a buffer of exactly that many values. Entry 0 is the binary64 quotient of
  \<open>(seed \<sqdot> mult + 1) mod m\<close> by \<open>m\<close>, entry \<open>i\<close> is the binary64 quotient of \<open>x\<^sub>i\<close> by
  \<open>m\<close> where \<open>x\<^sub>i = (x\<^sub>i\<^sub>-\<^sub>1 \<sqdot> mult + 1) mod m\<close>, and every entry is at least 0 and at most
  1. Every entry is below 1 when the modulus is at most \<open>2\<^sup>5\<^sup>3\<close>.
\<close>

theorem engine_recurrence:
  assumes "0 < md" and "1 \<le> sz"
  shows "\<exists>U. pseudo_uniform_good mult md seed sz = Inr U
             \<and> pseudo_uniform_bad mult md seed sz = Inr U
             \<and> length U = nat sz
             \<and> U ! 0 = py_truediv ((seed * mult + 1) mod md) md
             \<and> (\<forall>i<nat sz. U ! i = py_truediv (lcg_state mult md seed i) md)
             \<and> (\<forall>i. lcg_state mult md seed (Suc i) = (lcg_state mult md seed i * mult + 1) mod md)
             \<and> (\<forall>i<nat sz. 0 \<le> U ! i \<and> U ! i \<le> 1)
             \<and> (md \<le> 2 ^ 53 \<longrightarrow> (\<forall>i<nat sz. U ! i < 1))"
proof -
  let ?U = "map (\<lambda>i. py_truediv (lcg_state mult md seed i) md) [0..<nat sz]"
  have run: "pseudo_uniform_good mult md seed sz = Inr ?U"
    using assms by (simp add: pseudo_uniform_good_Inr)
  have pos: "0 < nat sz" using assms(2) by simp
  have rng: "0 \<le> ?U ! i \<and> ?U ! i \<le> 1" if "i < nat sz" for i
    using that lcg_state_range [OF assms(1), of mult seed i]
      py_truediv_range [OF assms(1), of "lcg_state mult md seed i"] by simp
  have below: "?U ! i < 1" if "i < nat sz" "md \<le> 2 ^ 53" for i
    using that lcg_state_range [OF assms(1), of mult seed i]
      py_truediv_below_one [OF assms(1) that(2), of "lcg_state mult md seed i"] by simp
  have "pseudo_uniform_good mult md seed sz = Inr ?U
        \<and> pseudo_uniform_bad mult md seed sz = Inr ?U
        \<and> length ?U = nat sz
        \<and> ?U ! 0 = py_truediv ((seed * mult + 1) mod md) md
        \<and> (\<forall>i<nat sz. ?U ! i = py_truediv (lcg_state mult md seed i) md)
        \<and> (\<forall>i. lcg_state mult md seed (Suc i) = (lcg_state mult md seed i * mult + 1) mod md)
        \<and> (\<forall>i<nat sz. 0 \<le> ?U ! i \<and> ?U ! i \<le> 1)
        \<and> (md \<le> 2 ^ 53 \<longrightarrow> (\<forall>i<nat sz. ?U ! i < 1))"
    using run pos rng below by (simp add: pseudo_uniform_bad_eq)
  then show ?thesis by blast
qed

text \<open>The configuration (5, 11, 3) of the notebook, for three values.\<close>

theorem engine_recurrence_witness:
  "(0::int) < 11 \<and> (1::int) \<le> 3 \<and> (11::int) \<le> 2 ^ 53
   \<and> pseudo_uniform_good 5 11 3 3
       = Inr [8188362958855447 / 2 ^ 54, 6550690367084358 / 2 ^ 54, 8188362958855447 / 2 ^ 53]
   \<and> pseudo_uniform_bad 5 11 3 3
       = Inr [8188362958855447 / 2 ^ 54, 6550690367084358 / 2 ^ 54, 8188362958855447 / 2 ^ 53]"
  using engine_recurrence [of 11 3 5 3] bad_config_three by (auto simp: pseudo_uniform_bad_eq)

text \<open>
  Claim C5 says that a request for 0 values returns an empty buffer. The code allocates
  the empty array and then stores to \<^verbatim>\<open>U[0]\<close> before its loop, which raises
  IndexError: here with the default arguments and \<^verbatim>\<open>size=0\<close>.
\<close>

theorem engine_empty_request:
  "pseudo_uniform_good 16807 (2 ^ 31 - 1) 123456789 0 = Inl IndexError"
  by (simp add: pseudo_uniform_good_def np_zeros_def)

text \<open>
  Claim C10. With a positive modulus, the engine returns for the seed \<open>s\<close> what it
  returns for \<open>s mod m\<close>: the seed enters only through \<open>(seed \<sqdot> mult + 1) mod m\<close>.
\<close>

theorem seed_mod_irrelevant:
  assumes "0 < md"
  shows "pseudo_uniform_good mult md (seed mod md) sz = pseudo_uniform_good mult md seed sz"
proof -
  have "(seed mod md * mult + 1) mod md = (seed * mult + 1) mod md"
    by (metis mod_add_left_eq mod_mult_left_eq)
  then show ?thesis unfolding pseudo_uniform_good_def by (simp only:)
qed

text \<open>Seeds 25 and 3 are congruent modulo 11.\<close>

theorem seed_mod_irrelevant_witness:
  "(0::int) < 11 \<and> pseudo_uniform_good 5 11 (25 mod 11) 3 = pseudo_uniform_good 5 11 25 3
   \<and> pseudo_uniform_good 5 11 25 3
       = Inr [8188362958855447 / 2 ^ 54, 6550690367084358 / 2 ^ 54, 8188362958855447 / 2 ^ 53]"
proof -
  have "pseudo_uniform_good 5 11 (25 mod 11) 3 = pseudo_uniform_good 5 11 3 3" by simp
  with seed_mod_irrelevant [of 11 5 25 3] bad_config_three show ?thesis by simp
qed

subsection \<open>The samplers on the default engine\<close>

lemma good_mod_pos: "0 < good_mod"
  by (simp add: good_mod_def)

lemma engine_good:
  "1 \<le> sz \<Longrightarrow> pseudo_uniform_good good_mult good_mod seed sz = Inr (engine_draws seed sz)"
  using good_mod_pos by (simp add: pseudo_uniform_good_Inr engine_draws_def)

lemma length_engine_draws: "length (engine_draws seed sz) = nat sz"
  by (simp add: engine_draws_def)

lemma nth_engine_draws:
  "i < nat sz \<Longrightarrow> engine_draws seed sz ! i = py_truediv (lcg_state good_mult good_mod seed i) good_mod"
  by (simp add: engine_draws_def)

lemma one_minus_two31: "is_f64 (1 - 1 / 2 ^ 31)"
proof -
  have "fl64 (of_int (2 ^ 31 - 1) * 2 powi (- 31)) = of_int (2 ^ 31 - 1) * 2 powi (- 31)"
    by (rule fl64_dyadic) simp_all
  moreover have "real_of_int (2 ^ 31 - 1) * 2 powi (- 31) = 1 - 1 / 2 ^ 31"
    by (simp add: power_int_minus_divide field_simps)
  ultimately show ?thesis by (simp add: is_f64_def)
qed

lemma default_quotient_range:
  assumes "0 \<le> x" "x < good_mod"
  shows "0 \<le> py_truediv x good_mod \<and> py_truediv x good_mod \<le> 1 - 1 / 2 ^ 31"
proof -
  have "real_of_int x \<le> 2147483646" using assms(2) by (simp add: good_mod_def)
  then have "real_of_int x / 2147483647 \<le> 2147483646 / 2147483647"
    by (simp add: divide_right_mono)
  also have "\<dots> \<le> 1 - 1 / 2 ^ 31" by simp
  finally have "real_of_int x / real_of_int good_mod \<le> 1 - 1 / 2 ^ 31"
    by (simp add: good_mod_def)
  then have "py_truediv x good_mod \<le> 1 - 1 / 2 ^ 31"
    unfolding py_truediv_def by (rule fl64_le_f64 [OF one_minus_two31])
  moreover have "0 \<le> py_truediv x good_mod"
    using py_truediv_range [OF good_mod_pos assms] by simp
  ultimately show ?thesis by simp
qed

lemma engine_draws_range:
  assumes "u \<in> set (engine_draws seed sz)"
  shows "0 \<le> u \<and> u \<le> 1 - 1 / 2 ^ 31 \<and> fl64 u = u"
proof -
  from assms obtain i where "u = py_truediv (lcg_state good_mult good_mod seed i) good_mod"
    by (auto simp: engine_draws_def)
  then show ?thesis
    using default_quotient_range [of "lcg_state good_mult good_mod seed i"]
      lcg_state_range [OF good_mod_pos, of good_mult seed i]
    by (simp add: py_truediv_idem)
qed

lemma engine_draws_unit:
  "u \<in> set (engine_draws seed sz) \<Longrightarrow> 0 \<le> u \<and> u < 1 \<and> fl64 u = u"
  using engine_draws_range [of u seed sz] by (auto simp: field_simps)

lemma scale_unit:
  assumes "0 \<le> u" "u \<le> 1" "fl64 u = u"
  shows "scale 0 1 u = Finite u"
proof -
  have "round64 1 = Finite 1" using round64_unit [of 1] by simp
  moreover have "round64 u = Finite u" using round64_unit [OF assms(1,2)] assms(3) by simp
  ultimately show ?thesis by (simp add: scale_def f64_sub_def)
qed

lemma pseudo_uniform_Inr:
  "1 \<le> sz \<Longrightarrow> pseudo_uniform low high seed sz = Inr (map (scale low high) (engine_draws seed sz))"
  by (simp add: pseudo_uniform_def engine_good)

lemma pseudo_uniform_unit:
  "1 \<le> sz \<Longrightarrow> pseudo_uniform 0 1 seed sz = Inr (map Finite (engine_draws seed sz))"
proof -
  assume sz: "1 \<le> sz"
  have "map (scale 0 1) (engine_draws seed sz) = map Finite (engine_draws seed sz)"
  proof (rule map_cong [OF refl])
    fix u assume "u \<in> set (engine_draws seed sz)"
    then have "0 \<le> u \<and> u < 1 \<and> fl64 u = u" by (rule engine_draws_unit)
    then show "scale 0 1 u = Finite u" by (intro scale_unit) simp_all
  qed
  with sz show ?thesis by (simp add: pseudo_uniform_Inr)
qed

lemma pseudo_uniform_zero: "pseudo_uniform low high seed 0 = Inl IndexError"
  by (simp add: pseudo_uniform_def pseudo_uniform_good_def np_zeros_def good_mod_def)

lemma pseudo_uniform_negative: "sz < 0 \<Longrightarrow> pseudo_uniform low high seed sz = Inl ValueError"
  by (simp add: pseudo_uniform_def pseudo_uniform_good_def np_zeros_def)

lemma default_first_draw: "engine_draws default_seed 1 = [7869348504398403 / 2 ^ 55]"
proof -
  have "fl64 (469049722 / 2147483647) = of_int 7869348504398403 / 2 ^ 55"
    by (rule fl64_eval [where y = "469049722 / 2147483647 * 2 ^ 55"])
       (simp_all add: nearest_even_def)
  then show ?thesis
    by (simp add: engine_draws_def good_mult_def good_mod_def default_seed_def py_truediv_def)
qed

subsection \<open>Scaling to an interval\<close>

lemma f64_multiple:
  assumes "fl64 x = x"
  shows "\<exists>K. x = of_int K * 2 powi (- 1074)"
proof (cases "x = 0")
  case True
  then show ?thesis by (intro exI [of _ 0]) simp
next
  case False
  define d where "d = nat (ulp_exp x + 1074)"
  have "- 1074 \<le> ulp_exp x" unfolding ulp_exp_bin_exp by linarith
  then have q: "ulp_exp x = - 1074 + int d" by (simp add: d_def)
  have "(2::real) powi (- 1074 + int d) = 2 powi (- 1074) * 2 powi (int d)"
    by (rule power_int_add) simp
  then have e: "(2::real) powi ulp_exp x = 2 ^ d * 2 powi (- 1074)" using q by simp
  have "x = of_int (rne (x / 2 powi ulp_exp x)) * 2 powi ulp_exp x"
    using assms False by (simp add: fl64_def)
  then have "x = of_int (rne (x / 2 powi ulp_exp x) * 2 ^ d) * 2 powi (- 1074)"
    unfolding e by simp
  then show ?thesis by blast
qed

lemma subnormal_difference_exact:
  assumes "fl64 a = a" "fl64 b = b" "ulp_exp (a - b) = - 1074"
  shows "fl64 (a - b) = a - b"
proof -
  obtain Ka where a: "a = of_int Ka * 2 powi (- 1074)" using f64_multiple [OF assms(1)] by blast
  obtain Kb where b: "b = of_int Kb * 2 powi (- 1074)" using f64_multiple [OF assms(2)] by blast
  have "a - b = of_int (Ka - Kb) * 2 powi (- 1074)"
    by (subst a, subst b) (simp add: algebra_simps)
  moreover have "ulp_exp (a - b) \<le> - 1074" using assms(3) by simp
  ultimately show ?thesis by (rule fl64_on_grid)
qed

lemma rounded_up_product:
  assumes "0 < D" "D < fl64 D" "- 1022 \<le> bin_exp D" "0 \<le> u" "u \<le> 1 - 1 / 2 ^ 31"
  shows "fl64 (fl64 D * u) \<le> D"
proof -
  define g :: real where "g = 2 powi ulp_exp D"
  define M where "M = rne (D / g)"
  have g: "0 < g" by (simp add: g_def)
  have D0: "D \<noteq> 0" using assms(1) by simp
  have d: "fl64 D = of_int M * g" using D0 by (simp add: fl64_def M_def g_def)
  have "max (bin_exp D) (- 1022) = bin_exp D" using assms(3) by simp
  then have "(2::real) powi bin_exp D = 2 ^ 52 * g"
    using binade_bottom [of D] by (simp add: g_def)
  moreover have "2 powi bin_exp D \<le> D" using bin_exp_bounds [OF D0] assms(1) by simp
  ultimately have "of_int (2 ^ 52) \<le> D / g" using g by (simp add: field_simps)
  then have Mlo: "2 ^ 52 \<le> M" unfolding M_def by (rule rne_ge)
  have Mhi: "M \<le> 2 ^ 53" using rne_abs_le_two53 [OF D0] by (simp add: M_def g_def)
  have near: "\<bar>of_int M - D / g\<bar> \<le> 1 / 2"
    using rne_nearest [of "D / g"] by (auto simp: nearest_even_def M_def)
  have c_le: "of_int (M - 1) * g \<le> D"
  proof -
    have "real_of_int M - 1 \<le> D / g" using near by linarith
    then have "real_of_int (M - 1) \<le> D / g" by simp
    then show ?thesis using g by (simp add: field_simps)
  qed
  have "real_of_int (2 ^ 52) \<le> of_int M" using Mlo by (rule iffD2 [OF of_int_le_iff])
  then have Mr: "(2 ^ 31 :: real) \<le> of_int M" by simp
  have "fl64 D * u \<le> of_int M * g * (1 - 1 / 2 ^ 31)"
    unfolding d using assms(5) g Mr by (intro mult_left_mono) simp_all
  also have "\<dots> = of_int M * g - of_int M * g / 2 ^ 31" by (simp add: algebra_simps)
  also have "\<dots> \<le> of_int M * g - g"
  proof -
    have "g * 2 ^ 31 \<le> of_int M * g" using Mr g by simp
    then have "g \<le> of_int M * g / 2 ^ 31" by (simp add: field_simps)
    then show ?thesis by linarith
  qed
  also have "\<dots> = of_int (M - 1) * g" by (simp add: algebra_simps)
  finally have le_c: "fl64 D * u \<le> of_int (M - 1) * g" .
  have "(0::int) < 2 ^ 52" by simp
  then have "\<bar>M - 1\<bar> < 2 ^ 53" using Mlo Mhi by linarith
  moreover have "- 1074 \<le> ulp_exp D" unfolding ulp_exp_bin_exp by linarith
  ultimately have "fl64 (of_int (M - 1) * g) = of_int (M - 1) * g"
    unfolding g_def by (rule fl64_dyadic)
  with fl64_mono [OF le_c] have "fl64 (fl64 D * u) \<le> of_int (M - 1) * g" by simp
  with c_le show ?thesis by linarith
qed

lemma scaled_product_le:
  assumes "fl64 low = low" "fl64 high = high" "low \<le> high" "0 \<le> u" "u \<le> 1 - 1 / 2 ^ 31"
  shows "0 \<le> fl64 (fl64 (high - low) * u) \<and> fl64 (fl64 (high - low) * u) \<le> high - low"
proof -
  define D where "D = high - low"
  have D: "0 \<le> D" using assms(3) by (simp add: D_def)
  have d0: "0 \<le> fl64 D" using D by (rule fl64_nonneg)
  have u1: "u \<le> 1" using assms(5) by (simp add: field_simps)
  have lo: "0 \<le> fl64 (fl64 D * u)" using d0 assms(4) by (intro fl64_nonneg) simp
  have hi: "fl64 (fl64 D * u) \<le> D"
  proof (cases "fl64 D \<le> D")
    case True
    have "fl64 D * u \<le> fl64 D" using d0 u1 by (simp add: mult_left_le)
    then have "fl64 (fl64 D * u) \<le> fl64 (fl64 D)" by (rule fl64_mono)
    with True show ?thesis by (simp add: fl64_idem)
  next
    case False
    then have up: "D < fl64 D" by simp
    then have D0: "0 < D" using D by (cases "D = 0") simp_all
    show ?thesis
    proof (cases "- 1022 \<le> bin_exp D")
      case True
      with D0 up show ?thesis using assms(4,5) by (intro rounded_up_product)
    next
      case False
      then have "ulp_exp D = - 1074" unfolding ulp_exp_bin_exp by linarith
      then have "fl64 D = D"
        unfolding D_def using assms(1,2) by (intro subnormal_difference_exact)
      with up show ?thesis by simp
    qed
  qed
  from lo hi show ?thesis by (simp add: D_def)
qed

lemma scale_value:
  assumes "is_f64 low" "is_f64 high" "low \<le> high" "\<bar>fl64 (high - low)\<bar> < 2 ^ 1024"
    and "0 \<le> u" "u \<le> 1 - 1 / 2 ^ 31"
  shows "scale low high u = Finite (fl64 (low + fl64 (fl64 (high - low) * u)))
         \<and> low \<le> fl64 (low + fl64 (fl64 (high - low) * u))
         \<and> fl64 (low + fl64 (fl64 (high - low) * u)) \<le> high"
proof -
  define d where "d = fl64 (high - low)"
  define t where "t = fl64 (d * u)"
  define v where "v = fl64 (low + t)"
  have fl: "fl64 low = low" "fl64 high = high" and fin: "\<bar>low\<bar> < 2 ^ 1024" "\<bar>high\<bar> < 2 ^ 1024"
    using assms(1,2) by (simp_all add: is_f64_def)
  have t: "0 \<le> t" "t \<le> high - low"
    using scaled_product_le [OF fl assms(3,5,6)] by (simp_all add: t_def d_def)
  have d0: "0 \<le> d" unfolding d_def using assms(3) by (intro fl64_nonneg) simp
  have u1: "u \<le> 1" using assms(6) by (simp add: field_simps)
  have "d * u \<le> d" using d0 u1 by (simp add: mult_left_le)
  then have "t \<le> fl64 d" unfolding t_def by (rule fl64_mono)
  then have td: "t \<le> d" by (simp add: d_def fl64_idem)
  have vlo: "low \<le> v" unfolding v_def using assms(1) t(1) by (intro fl64_ge_f64) simp_all
  have vhi: "v \<le> high" unfolding v_def using assms(2) t(2) by (intro fl64_le_f64) simp_all
  have s1: "f64_sub (Finite high) (Finite low) = Finite d"
    using assms(4) by (simp add: f64_sub_def d_def round64_Finite)
  have "\<bar>t\<bar> < 2 ^ 1024" using t(1) td assms(4) d0 by (simp add: d_def)
  then have s2: "f64_mul (Finite d) (Finite u) = Finite t"
    by (simp add: t_def round64_Finite)
  have "\<bar>v\<bar> < 2 ^ 1024" using vlo vhi fin by linarith
  then have s3: "f64_add (Finite low) (Finite t) = Finite v"
    by (simp add: v_def round64_Finite)
  have "scale low high u = Finite v" by (simp only: scale_def s1 s2 s3)
  with vlo vhi show ?thesis by (simp add: v_def t_def d_def)
qed

lemma scale_constant: "is_f64 low \<Longrightarrow> scale low low u = Finite low"
proof -
  assume f: "is_f64 low"
  have "round64 0 = Finite 0" using round64_unit [of 0] by simp
  moreover have "round64 low = Finite low" using f by (simp add: is_f64_def round64_Finite)
  ultimately show ?thesis by (simp add: scale_def f64_sub_def)
qed

subsection \<open>Properties of the uniform sampler\<close>

lemma is_f64_of_int: "\<bar>k\<bar> < 2 ^ 53 \<Longrightarrow> is_f64 (of_int k)"
proof -
  assume k: "\<bar>k\<bar> < 2 ^ 53"
  then have "real_of_int \<bar>k\<bar> < of_int (2 ^ 53)" by (rule iffD2 [OF of_int_less_iff])
  then have "\<bar>real_of_int k\<bar> < 2 ^ 53" by simp
  moreover have "(2::real) ^ 53 \<le> 2 ^ 1024" by (intro power_increasing) simp_all
  ultimately have "\<bar>real_of_int k\<bar> < 2 ^ 1024" by linarith
  with fl64_of_int [OF k] show ?thesis by (simp add: is_f64_def)
qed

lemma round64_of_int: "\<bar>k\<bar> < 2 ^ 53 \<Longrightarrow> round64 (of_int k) = Finite (of_int k)"
  using is_f64_of_int [of k] by (simp add: is_f64_def round64_Finite)

lemma draw_near_one: "engine_draws 71936294 1 = [1 - 1 / 2 ^ 30]"
proof -
  have "fl64 (2147483645 / 2147483647) = of_int 9007199246352384 / 2 ^ 53"
    by (rule fl64_eval [where y = "2147483645 / 2147483647 * 2 ^ 53"])
       (simp_all add: nearest_even_def)
  then show ?thesis
    by (simp add: engine_draws_def good_mult_def good_mod_def py_truediv_def)
qed

lemma sum_rounds_to_high: "fl64 (10000000 + (1 - 1 / 2 ^ 30)) = 10000001"
proof -
  have "fl64 (10000000 + (1 - 1 / 2 ^ 30)) = of_int 5368709656870912 / 2 ^ 29"
    by (rule fl64_eval [where y = "(10000000 + (1 - 1 / 2 ^ 30)) * 2 ^ 29"])
       (simp_all add: nearest_even_def)
  then show ?thesis by simp
qed

text \<open>
  Claim C7 says that for \<open>low < high\<close> every value is below \<open>high\<close>. The sum
  \<^verbatim>\<open>low+(high-low)*u\<close> is rounded: with the bounds \<open>10\<^sup>7\<close> and \<open>10\<^sup>7 + 1\<close> and the
  seed 71936294 the engine value is \<open>1 - 2\<^sup>-\<^sup>3\<^sup>0\<close>, the exact sum lies half-way between two
  binary64 numbers, and the value returned is \<open>high\<close>.
\<close>

theorem uniform_reaches_high:
  "pseudo_uniform 10000000 10000001 71936294 1 = Inr [Finite 10000001]"
proof -
  have u: "fl64 (1 - 1 / 2 ^ 30) = 1 - 1 / 2 ^ 30"
    using engine_draws_range [of "1 - 1 / 2 ^ 30" 71936294 1] by (simp add: draw_near_one)
  have s1: "round64 1 = Finite 1" using round64_of_int [of 1] by simp
  have s2: "round64 (1 - 1 / 2 ^ 30) = Finite (1 - 1 / 2 ^ 30)"
    using round64_unit [of "1 - 1 / 2 ^ 30"] u by simp
  have "\<bar>fl64 (10000000 + (1 - 1 / 2 ^ 30))\<bar> < 2 ^ 1024"
    unfolding sum_rounds_to_high by simp
  then have "round64 (10000000 + (1 - 1 / 2 ^ 30)) = Finite (fl64 (10000000 + (1 - 1 / 2 ^ 30)))"
    by (rule round64_Finite)
  then have s3: "round64 (10000000 + (1 - 1 / 2 ^ 30)) = Finite 10000001"
    by (simp only: sum_rounds_to_high)
  have "scale 10000000 10000001 (1 - 1 / 2 ^ 30) = Finite 10000001"
    using s1 s2 s3 by (simp add: scale_def f64_sub_def)
  then show ?thesis by (simp add: pseudo_uniform_Inr draw_near_one)
qed

text \<open>
  Claim C7, as the code has it. For binary64 bounds \<open>low \<le> high\<close> whose difference
  does not overflow, every seed and a count of at least 1, every value the uniform sampler
  returns is \<open>low + (high - low) \<sqdot> u\<close> computed in binary64 (the difference, the product
  and the sum each rounded) for the engine's value \<open>u\<close> at that position, and \<open>u\<close> is
  at least 0 and below 1. Every value is at least \<open>low\<close> and at most \<open>high\<close>, and for
  \<open>low = high\<close> the call returns the constant sequence \<open>low\<close>.
\<close>

theorem uniform_sampler:
  assumes "is_f64 low" and "is_f64 high" and "low \<le> high"
    and "\<bar>fl64 (high - low)\<bar> < 2 ^ 1024" and "1 \<le> sz"
  shows "pseudo_uniform_good good_mult good_mod seed sz = Inr (engine_draws seed sz)
         \<and> length (engine_draws seed sz) = nat sz
         \<and> (\<forall>u\<in>set (engine_draws seed sz). 0 \<le> u \<and> u < 1)
         \<and> pseudo_uniform low high seed sz
             = Inr (map (\<lambda>u. Finite (fl64 (low + fl64 (fl64 (high - low) * u))))
                        (engine_draws seed sz))
         \<and> (\<forall>u\<in>set (engine_draws seed sz).
               low \<le> fl64 (low + fl64 (fl64 (high - low) * u))
               \<and> fl64 (low + fl64 (fl64 (high - low) * u)) \<le> high)
         \<and> (low = high \<longrightarrow> pseudo_uniform low high seed sz = Inr (replicate (nat sz) (Finite low)))"
proof -
  have rng: "\<forall>u\<in>set (engine_draws seed sz). 0 \<le> u \<and> u < 1"
    using engine_draws_unit by blast
  have val: "scale low high u = Finite (fl64 (low + fl64 (fl64 (high - low) * u)))
             \<and> low \<le> fl64 (low + fl64 (fl64 (high - low) * u))
             \<and> fl64 (low + fl64 (fl64 (high - low) * u)) \<le> high"
    if "u \<in> set (engine_draws seed sz)" for u
    using engine_draws_range [OF that] assms(1-4) by (intro scale_value) simp_all
  have eq: "map (scale low high) (engine_draws seed sz)
              = map (\<lambda>u. Finite (fl64 (low + fl64 (fl64 (high - low) * u)))) (engine_draws seed sz)"
    by (rule map_cong [OF refl]) (use val in blast)
  have const: "pseudo_uniform low high seed sz = Inr (replicate (nat sz) (Finite low))"
    if "low = high"
  proof -
    have "map (scale low high) (engine_draws seed sz) = map (\<lambda>u. Finite low) (engine_draws seed sz)"
      by (rule map_cong [OF refl]) (use that assms(1) scale_constant in simp)
    then show ?thesis
      using assms(5) by (simp add: pseudo_uniform_Inr map_replicate_const length_engine_draws)
  qed
  show ?thesis
    using assms(5) rng val eq const
    by (simp add: engine_good length_engine_draws pseudo_uniform_Inr)
qed

lemma notebook_interval_value:
  "fl64 (- 5 + fl64 (fl64 (7 - (- 5)) * (7869348504398403 / 2 ^ 55)))
     = - (5356987690127438 / 2 ^ 51)"
proof -
  have d: "fl64 (7 - (- 5)) = 12" using fl64_of_int [of 12] by simp
  have t: "fl64 (12 * (7869348504398403 / 2 ^ 55)) = of_int 5902011378298802 / 2 ^ 51"
    by (rule fl64_eval [where y = "12 * (7869348504398403 / 2 ^ 55) * 2 ^ 51"])
       (simp_all add: nearest_even_def)
  have v: "fl64 (- 5 + of_int 5902011378298802 / 2 ^ 51) = of_int (- 5356987690127438) / 2 ^ 51"
    by (rule fl64_eval [where y = "(- 5 + of_int 5902011378298802 / 2 ^ 51) * 2 ^ 51"])
       (simp_all add: nearest_even_def)
  show ?thesis by (simp only: d t v)
qed

text \<open>The interval \<open>[-5, 7]\<close> of the notebook, and the degenerate interval \<open>[2, 2]\<close>.\<close>

theorem uniform_sampler_witness:
  "is_f64 (- 5) \<and> is_f64 7 \<and> (- 5 :: real) \<le> 7 \<and> \<bar>fl64 (7 - (- 5))\<bar> < 2 ^ 1024 \<and> (1::int) \<le> 1
   \<and> pseudo_uniform (- 5) 7 default_seed 1 = Inr [Finite (- (5356987690127438 / 2 ^ 51))]
   \<and> is_f64 2 \<and> pseudo_uniform 2 2 default_seed 1 = Inr [Finite 2]"
proof -
  have a: "is_f64 (- 5)" using is_f64_of_int [of "- 5"] by simp
  have b: "is_f64 7" using is_f64_of_int [of 7] by simp
  have c: "is_f64 2" using is_f64_of_int [of 2] by simp
  have d: "\<bar>fl64 (7 - (- 5))\<bar> < 2 ^ 1024" using fl64_of_int [of 12] by simp
  have e: "\<bar>fl64 (2 - 2)\<bar> < 2 ^ 1024" by simp
  from uniform_sampler [OF a b _ d, of 1 default_seed]
  have "pseudo_uniform (- 5) 7 default_seed 1
          = Inr (map (\<lambda>u. Finite (fl64 (- 5 + fl64 (fl64 (7 - (- 5)) * u))))
                     (engine_draws default_seed 1))"
    by simp
  then have f: "pseudo_uniform (- 5) 7 default_seed 1 = Inr [Finite (- (5356987690127438 / 2 ^ 51))]"
    by (simp only: default_first_draw list.map notebook_interval_value)
  have le: "(2::real) \<le> 2" and one: "(1::int) \<le> 1" by simp_all
  from uniform_sampler [OF c c le e one, of default_seed]
  have "pseudo_uniform 2 2 default_seed 1 = Inr (replicate (nat 1) (Finite 2))" by blast
  then have g: "pseudo_uniform 2 2 default_seed 1 = Inr [Finite 2]" by simp
  from a b c d f g show ?thesis by simp
qed

subsection \<open>Binomial with no trials\<close>

lemma binomial_zero_trials_general:
  "1 \<le> sz \<Longrightarrow> pseudo_binomial 0 p sz clock = Inl IndexError"
proof -
  assume "1 \<le> sz"
  then obtain m where "nat sz = Suc m" by (cases "nat sz") simp_all
  then have "[0..<nat sz] = 0 # [1..<Suc m]" by (simp add: upt_conv_Cons)
  then show ?thesis by (simp add: pseudo_binomial_def pseudo_uniform_zero)
qed

text \<open>
  Claim C6 says that with 0 trials the Binomial sampler returns a 0 for every outcome.
  The code asks the engine for 0 values, and the engine raises IndexError at its store to
  \<^verbatim>\<open>U[0]\<close>: here \<^verbatim>\<open>pseudo_binomial(n=0, p=0.5, size=1)\<close>.
\<close>

theorem binomial_zero_trials:
  "pseudo_binomial 0 (1 / 2) 1 (const_clock default_seed) = Inl IndexError"
  by (simp add: pseudo_binomial_def pseudo_uniform_zero)

subsection \<open>The engine does not read the clock\<close>

lemma loop_run_lcg_loop: "loop_run mult md sz i x U w r \<Longrightarrow> r = (lcg_loop mult md sz i x U, w)"
proof (induction rule: loop_run.induct)
  case (loop_exit i sz mult md x U w)
  then show ?case by (simp add: lcg_loop.simps [of mult md sz i x U])
next
  case (loop_iter i sz x' x mult md U w r)
  then show ?case by (simp add: lcg_loop.simps [of mult md sz i x U] Let_def)
qed

lemma lcg_loop_run: "loop_run mult md sz i x U w (lcg_loop mult md sz i x U, w)"
proof (induction mult md sz i x U rule: lcg_loop.induct)
  case (1 mult md sz i x U)
  show ?case
  proof (cases "i < sz")
    case True
    have "loop_run mult md sz (Suc i) ((x * mult + 1) mod md)
            (U[i := py_truediv ((x * mult + 1) mod md) md]) w
            (lcg_loop mult md sz i x U, w)"
      using "1.IH" [OF True refl] True by (simp add: lcg_loop.simps [of mult md sz i x U] Let_def)
    with True show ?thesis by (rule loop_iter [OF _ refl])
  next
    case False
    then show ?thesis by (simp add: lcg_loop.simps [of mult md sz i x U] loop_exit)
  qed
qed

lemma engine_run_iff:
  "engine_run mult md seed sz w (r, w') \<longleftrightarrow> r = pseudo_uniform_good mult md seed sz \<and> w' = w"
proof
  assume "engine_run mult md seed sz w (r, w')"
  then show "r = pseudo_uniform_good mult md seed sz \<and> w' = w"
  proof (cases rule: engine_run.cases)
    case (returns U x U')
    from loop_run_lcg_loop [OF returns(6)] returns show ?thesis
      by (simp add: pseudo_uniform_good_def Let_def)
  qed (simp_all add: pseudo_uniform_good_def)
next
  assume a: "r = pseudo_uniform_good mult md seed sz \<and> w' = w"
  show "engine_run mult md seed sz w (r, w')"
  proof (cases "np_zeros sz")
    case (Inl e)
    with a show ?thesis by (simp add: pseudo_uniform_good_def raise_zeros)
  next
    case (Inr U)
    show ?thesis
    proof (cases "md = 0")
      case True
      with a Inr show ?thesis by (simp add: pseudo_uniform_good_def raise_mod)
    next
      case False
      show ?thesis
      proof (cases "length U = 0")
        case True
        have "engine_run mult md seed sz w (Inl IndexError, w)"
          using Inr False True by (rule raise_store)
        with a Inr False True show ?thesis by (simp add: pseudo_uniform_good_def)
      next
        case nz: False
        let ?x = "(seed * mult + 1) mod md"
        have "engine_run mult md seed sz w
                (Inr (lcg_loop mult md (nat sz) 1 ?x (U[0 := py_truediv ?x md])), w)"
          using Inr False nz by (rule returns [OF _ _ _ refl lcg_loop_run])
        with a Inr False nz show ?thesis by (simp add: pseudo_uniform_good_def Let_def)
      qed
    qed
  qed
qed

text \<open>
  A run of the Bernoulli sampler makes one reading and returns what \<open>pseudo_bernoulli\<close>
  returns for the clock as it stands in that world.
\<close>

lemma bernoulli_run_iff:
  "bernoulli_run p sz w (r, w') \<longleftrightarrow>
     w' = snd (perf_counter w) \<and>
     r = pseudo_bernoulli p sz (\<lambda>k. clock_of w (readings w + k))"
proof
  assume "bernoulli_run p sz w (r, w')"
  then show "w' = snd (perf_counter w) \<and>
     r = pseudo_bernoulli p sz (\<lambda>k. clock_of w (readings w + k))"
    by (cases rule: bernoulli_run.cases)
       (auto simp: engine_run_iff pseudo_bernoulli_def pseudo_uniform_def perf_counter_def
             split: sum.splits)
next
  assume a: "w' = snd (perf_counter w) \<and>
     r = pseudo_bernoulli p sz (\<lambda>k. clock_of w (readings w + k))"
  have pc: "perf_counter w = (fst (perf_counter w), snd (perf_counter w))" by simp
  have er: "engine_run good_mult good_mod (fst (perf_counter w)) sz (snd (perf_counter w))
              (pseudo_uniform_good good_mult good_mod (fst (perf_counter w)) sz,
               snd (perf_counter w))"
    by (simp add: engine_run_iff)
  from bernoulli_call [OF pc er, of p] a show "bernoulli_run p sz w (r, w')"
    by (simp add: pseudo_bernoulli_def pseudo_uniform_def perf_counter_def split: sum.splits)
qed

lemma pseudo_bernoulli_Inr:
  "1 \<le> sz \<Longrightarrow> pseudo_bernoulli p sz clock
     = Inr (map (indicator_le p) (map Finite (engine_draws (clock 0) sz)))"
  by (simp add: pseudo_bernoulli_def pseudo_uniform_unit)

lemma is_f64_frac: "\<bar>k\<bar> < 2 ^ 53 \<Longrightarrow> n \<le> 1074 \<Longrightarrow> is_f64 (of_int k / 2 ^ n)"
proof -
  assume k: "\<bar>k\<bar> < 2 ^ 53" and n: "n \<le> 1074"
  have p: "(2::real) powi (- int n) = 1 / 2 ^ n" by (simp add: power_int_minus_divide)
  have "fl64 (of_int k * 2 powi (- int n)) = of_int k * 2 powi (- int n)"
    using k n by (intro fl64_dyadic) simp_all
  then have f: "fl64 (of_int k / 2 ^ n) = of_int k / 2 ^ n" using p by simp
  have "real_of_int \<bar>k\<bar> < of_int (2 ^ 53)" using k by (rule iffD2 [OF of_int_less_iff])
  then have "\<bar>real_of_int k\<bar> < 2 ^ 53" by simp
  moreover have "(2::real) ^ 53 \<le> 2 ^ 1024" by (intro power_increasing) simp_all
  moreover have "\<bar>real_of_int k / 2 ^ n\<bar> \<le> \<bar>real_of_int k\<bar>"
  proof -
    have "(1::real) \<le> 2 ^ n" by simp
    then have "\<bar>real_of_int k\<bar> / 2 ^ n \<le> \<bar>real_of_int k\<bar> / 1"
      by (intro divide_left_mono) simp_all
    then show ?thesis by (simp add: abs_divide)
  qed
  ultimately have "\<bar>real_of_int k / 2 ^ n\<bar> < 2 ^ 1024" by linarith
  with f show ?thesis by (simp add: is_f64_def)
qed

lemma is_f64_half: "is_f64 (1 / 2)"
  using is_f64_frac [of 1 1] by simp


lemma world_draws:
  "engine_draws 0 1 ! 0 \<le> 1 / 2 \<and> \<not> engine_draws 70278 1 ! 0 \<le> 1 / 2"
proof -
  have a: "engine_draws 0 1 ! 0 = fl64 (1 / 2147483647)"
    by (simp add: nth_engine_draws good_mult_def good_mod_def py_truediv_def)
  have b: "engine_draws 70278 1 ! 0 = fl64 (1181162347 / 2147483647)"
    by (simp add: nth_engine_draws good_mult_def good_mod_def py_truediv_def)
  have "fl64 (1 / 2147483647) \<le> 1 / 2"
    by (rule fl64_le_f64 [OF is_f64_half]) simp
  moreover have "17 / 32 \<le> fl64 (1181162347 / 2147483647)"
    using is_f64_frac [of 17 5] by (intro fl64_ge_f64) simp_all
  ultimately show ?thesis unfolding a b by simp
qed

text \<open>
  The Bernoulli sampler, which reads the clock, gives different results in the two
  worlds.
\<close>

lemma bernoulli_reads_clock:
  "bernoulli_run (1 / 2) 1 world_a (Inr [1], world_a\<lparr>readings := 1\<rparr>)
   \<and> bernoulli_run (1 / 2) 1 world_b (Inr [0], world_b\<lparr>readings := 8\<rparr>)"
proof -
  have single: "pseudo_bernoulli (1 / 2) 1 c
                  = Inr [indicator_le (1 / 2) (Finite (engine_draws (c 0) 1 ! 0))]" for c
    by (simp add: pseudo_bernoulli_Inr engine_draws_def)
  have a: "pseudo_bernoulli (1 / 2) 1 (\<lambda>k. const_clock 0 k) = Inr [1]"
    unfolding single using world_draws by (simp add: indicator_le_def const_clock_def)
  have b: "pseudo_bernoulli (1 / 2) 1 (\<lambda>k. const_clock 70278 (7 + k)) = Inr [0]"
    unfolding single using world_draws by (simp add: indicator_le_def const_clock_def)
  show ?thesis
    using a b by (simp add: bernoulli_run_iff perf_counter_def world_a_def world_b_def)
qed

text \<open>
  Claim C8. Two runs of the engine with the same multiplier, modulus (positive), seed
  and count return the same result, in whatever worlds they run: the clocks and the
  numbers of readings made before may differ. Neither run makes a reading, so each leaves
  its world as it found it.
\<close>

theorem engine_deterministic:
  assumes "0 < md"
    and "engine_run mult md seed sz w1 (r1, w1')"
    and "engine_run mult md seed sz w2 (r2, w2')"
  shows "r1 = r2 \<and> w1' = w1 \<and> w2' = w2"
proof -
  from assms(2) have a: "r1 = pseudo_uniform_good mult md seed sz \<and> w1' = w1"
    by (rule iffD1 [OF engine_run_iff])
  from assms(3) have b: "r2 = pseudo_uniform_good mult md seed sz \<and> w2' = w2"
    by (rule iffD1 [OF engine_run_iff])
  from a b show ?thesis by blast
qed

text \<open>The configuration (5, 11, 3) for three values, run in the two worlds.\<close>

theorem engine_deterministic_witness:
  "(0::int) < 11
   \<and> engine_run 5 11 3 3 world_a
       (Inr [8188362958855447 / 2 ^ 54, 6550690367084358 / 2 ^ 54, 8188362958855447 / 2 ^ 53],
        world_a)
   \<and> engine_run 5 11 3 3 world_b
       (Inr [8188362958855447 / 2 ^ 54, 6550690367084358 / 2 ^ 54, 8188362958855447 / 2 ^ 53],
        world_b)
   \<and> world_a \<noteq> world_b"
proof -
  have a: "engine_run 5 11 3 3 world_a
       (Inr [8188362958855447 / 2 ^ 54, 6550690367084358 / 2 ^ 54, 8188362958855447 / 2 ^ 53],
        world_a)"
    by (simp only: engine_run_iff bad_config_three simp_thms)
  have b: "engine_run 5 11 3 3 world_b
       (Inr [8188362958855447 / 2 ^ 54, 6550690367084358 / 2 ^ 54, 8188362958855447 / 2 ^ 53],
        world_b)"
    by (simp only: engine_run_iff bad_config_three simp_thms)
  have c: "(0::int) < 11" by simp
  have d: "world_a \<noteq> world_b" by (simp add: world_a_def world_b_def)
  from engine_deterministic [OF c a b] a b c d show ?thesis by blast
qed

subsection \<open>The Poisson loop\<close>

lemma first_below_unique: "first_below thr U k \<Longrightarrow> first_below thr U k' \<Longrightarrow> k = k'"
  unfolding first_below_def by (metis linorder_neqE_nat)

lemma first_below_pos: "f64_le thr (Finite 1) \<Longrightarrow> first_below thr U k \<Longrightarrow> 1 \<le> k"
  unfolding first_below_def by (cases k) simp_all

lemma poisson_while_result:
  assumes "i \<le> length U" and "P = run_prod U i" and "X = int i"
    and "\<forall>j<i. f64_le thr (run_prod U j)"
  shows "(case poisson_while thr U X P i of
            Inr r \<Rightarrow> \<exists>k. r = int k \<and> first_below thr U k
          | Inl e \<Rightarrow> e = IndexError \<and> (\<forall>k\<le>length U. f64_le thr (run_prod U k)))"
  using assms
proof (induction thr U X P i rule: poisson_while.induct)
  case (1 thr U X P i)
  show ?case
  proof (cases "f64_le thr P")
    case False
    then have "poisson_while thr U X P i = Inr X"
      by (simp add: poisson_while.simps [of thr U X P i])
    moreover have "first_below thr U i"
      using False "1.prems" by (simp add: first_below_def)
    ultimately show ?thesis using "1.prems"(3) by auto
  next
    case True
    have upto: "\<forall>j<Suc i. f64_le thr (run_prod U j)"
      using True "1.prems"(2,4) by (auto simp: less_Suc_eq)
    show ?thesis
    proof (cases "i < length U")
      case False
      with "1.prems"(1) have "i = length U" by simp
      with upto have "\<forall>k\<le>length U. f64_le thr (run_prod U k)"
        by (simp add: less_Suc_eq_le)
      moreover have "poisson_while thr U X P i = Inl IndexError"
        using True False by (simp add: poisson_while.simps [of thr U X P i])
      ultimately show ?thesis by simp
    next
      case lt: True
      have step: "poisson_while thr U X P i = poisson_while thr U (X + 1) (f64_mul (U ! i) P) (Suc i)"
        using True lt by (simp add: poisson_while.simps [of thr U X P i])
      have "f64_mul (U ! i) P = run_prod U (Suc i)"
        using "1.prems"(2) by simp
      moreover have "X + 1 = int (Suc i)" using "1.prems"(3) by simp
      moreover have "Suc i \<le> length U" using lt by simp
      ultimately show ?thesis
        using "1.IH" [OF True lt] upto step by simp
    qed
  qed
qed

lemma poisson_while_start:
  "(case poisson_while thr U 0 (Finite 1) 0 of
      Inr r \<Rightarrow> \<exists>k. r = int k \<and> first_below thr U k
    | Inl e \<Rightarrow> e = IndexError \<and> (\<forall>k\<le>length U. f64_le thr (run_prod U k)))"
  by (rule poisson_while_result) simp_all

lemma poisson_while_Inr_iff:
  "poisson_while thr U 0 (Finite 1) 0 = Inr (int k) \<longleftrightarrow> first_below thr U k"
proof
  assume "poisson_while thr U 0 (Finite 1) 0 = Inr (int k)"
  with poisson_while_start [where thr = thr and U = U] show "first_below thr U k" by auto
next
  assume fb: "first_below thr U k"
  show "poisson_while thr U 0 (Finite 1) 0 = Inr (int k)"
  proof (cases "poisson_while thr U 0 (Finite 1) 0")
    case (Inl e)
    with poisson_while_start [where thr = thr and U = U]
    have "\<forall>k\<le>length U. f64_le thr (run_prod U k)" by simp
    with fb show ?thesis by (auto simp: first_below_def)
  next
    case (Inr r)
    with poisson_while_start [where thr = thr and U = U]
    obtain k' where "r = int k'" "first_below thr U k'" by auto
    with fb Inr show ?thesis using first_below_unique by blast
  qed
qed


lemma poisson_outcome_eq:
  "0 < alpha \<Longrightarrow> poisson_outcome alpha seed
     = poisson_while (poisson_threshold alpha) (map Finite (engine_draws seed (5 * alpha)))
         0 (Finite 1) 0"
  by (simp add: poisson_outcome_def pseudo_uniform_unit)

lemma poisson_loop_Inr:
  "poisson_loop alpha clock ks acc = Inr xs \<longleftrightarrow>
     (\<exists>ys. xs = acc @ ys \<and> length ys = length ks
            \<and> (\<forall>j<length ks. poisson_outcome alpha (clock (ks ! j)) = Inr (ys ! j)))"
proof (induction ks arbitrary: acc)
  case Nil
  then show ?case by auto
next
  case (Cons k ks)
  show ?case
  proof (cases "poisson_outcome alpha (clock k)")
    case (Inl e)
    then show ?thesis by auto
  next
    case (Inr X)
    have "poisson_loop alpha clock (k # ks) acc = Inr xs \<longleftrightarrow>
            (\<exists>ys. xs = (acc @ [X]) @ ys \<and> length ys = length ks
                   \<and> (\<forall>j<length ks. poisson_outcome alpha (clock (ks ! j)) = Inr (ys ! j)))"
      using Inr Cons.IH [of "acc @ [X]"] by simp
    also have "\<dots> \<longleftrightarrow>
            (\<exists>zs. xs = acc @ zs \<and> length zs = length (k # ks)
                   \<and> (\<forall>j<length (k # ks). poisson_outcome alpha (clock ((k # ks) ! j)) = Inr (zs ! j)))"
      (is "?L \<longleftrightarrow> ?R")
    proof
      assume ?L
      then obtain ys where ys: "xs = (acc @ [X]) @ ys" "length ys = length ks"
        "\<forall>j<length ks. poisson_outcome alpha (clock (ks ! j)) = Inr (ys ! j)" by blast
      have "\<forall>j<length (k # ks). poisson_outcome alpha (clock ((k # ks) ! j)) = Inr ((X # ys) ! j)"
        using ys(3) Inr by (auto simp: nth_Cons split: nat.splits)
      with ys(1,2) show ?R by (intro exI [of _ "X # ys"]) simp
    next
      assume ?R
      then obtain zs where zs: "xs = acc @ zs" "length zs = length (k # ks)"
        "\<forall>j<length (k # ks). poisson_outcome alpha (clock ((k # ks) ! j)) = Inr (zs ! j)" by blast
      from zs(2) obtain z ys where zc: "zs = z # ys" by (cases zs) simp_all
      from zs(3) have "poisson_outcome alpha (clock k) = Inr (zs ! 0)" by auto
      with Inr zc have "z = X" by simp
      moreover have "\<forall>j<length ks. poisson_outcome alpha (clock (ks ! j)) = Inr (ys ! j)"
      proof (intro allI impI)
        fix j assume "j < length ks"
        then have "Suc j < length (k # ks)" by simp
        with zs(3) have "poisson_outcome alpha (clock ((k # ks) ! Suc j)) = Inr (zs ! Suc j)" by blast
        then show "poisson_outcome alpha (clock (ks ! j)) = Inr (ys ! j)" using zc by simp
      qed
      ultimately show ?L using zs(1,2) zc by (intro exI [of _ ys]) simp
    qed
    finally show ?thesis .
  qed
qed


lemma pseudo_poisson_Inr:
  "pseudo_poisson alpha sz clock = Inr xs \<longleftrightarrow>
     length xs = nat sz \<and> (\<forall>j<nat sz. poisson_outcome alpha (clock j) = Inr (xs ! j))"
  by (auto simp: pseudo_poisson_def poisson_loop_Inr)



lemma pseudo_poisson_first_below:
  assumes "0 < alpha" "length ks = nat sz"
    and "\<forall>j<nat sz. first_below (poisson_threshold alpha)
                        (map Finite (engine_draws (clock j) (5 * alpha))) (ks ! j)"
  shows "pseudo_poisson alpha sz clock = Inr (map int ks)"
proof -
  have "poisson_outcome alpha (clock j) = Inr (map int ks ! j)" if "j < nat sz" for j
    using that assms by (simp add: poisson_outcome_eq poisson_while_Inr_iff)
  then show ?thesis using assms(2) by (simp add: pseudo_poisson_Inr)
qed

subsection \<open>The threshold and the running product\<close>

lemma exp_neg_one_bounds: "1 / 3 \<le> exp (- 1 :: real) \<and> exp (- 1 :: real) \<le> 1 / 2"
proof -
  have up: "exp (1::real) \<le> 3" by (rule exp_le)
  have lo: "(2::real) \<le> exp 1" using exp_ge_add_one_self [of "1::real"] by simp
  have pos: "0 < exp (1::real)" by simp
  have eq: "exp (- 1 :: real) = 1 / exp 1" by (simp add: exp_minus divide_inverse)
  have "1 / 3 \<le> 1 / exp (1::real)" using up pos by (simp add: field_simps)
  moreover have "1 / exp (1::real) \<le> 1 / 2" using lo pos by (simp add: field_simps)
  ultimately show ?thesis using eq by simp
qed

lemma threshold_unit:
  assumes "0 < alpha"
  shows "\<exists>t. poisson_threshold alpha = Finite t \<and> 0 \<le> t \<and> t \<le> 1"
proof -
  have "fl64 (- real_of_int alpha) \<le> 0" using assms by (intro fl64_nonpos) simp
  then have e: "0 \<le> exp (fl64 (- real_of_int alpha))" "exp (fl64 (- real_of_int alpha)) \<le> 1"
    by simp_all
  from round64_unit [OF e] fl64_unit_interval [OF e] show ?thesis
    by (simp add: poisson_threshold_def np_exp_def)
qed

lemma threshold_le_one: "0 < alpha \<Longrightarrow> f64_le (poisson_threshold alpha) (Finite 1)"
  using threshold_unit [of alpha] by auto

lemma threshold_one:
  "\<exists>t. poisson_threshold 1 = Finite t \<and> 5 / 16 \<le> t \<and> t \<le> 1 / 2"
proof -
  have m: "fl64 (- 1) = - 1" using fl64_of_int [of "- 1"] by simp
  have a: "is_f64 (5 / 16)" using is_f64_frac [of 5 4] by simp
  have b: "is_f64 (1 / 2)" using is_f64_frac [of 1 1] by simp
  have lo: "5 / 16 \<le> fl64 (exp (- 1))" using exp_neg_one_bounds by (intro fl64_ge_f64 [OF a]) simp
  have hi: "fl64 (exp (- 1)) \<le> 1 / 2" using exp_neg_one_bounds by (intro fl64_le_f64 [OF b]) simp
  have "round64 (exp (- 1)) = Finite (fl64 (exp (- 1)))"
    using lo hi by (intro round64_Finite) simp
  with lo hi show ?thesis by (simp add: poisson_threshold_def np_exp_def m)
qed




subsection \<open>What the Poisson sampler returns\<close>

lemma zero_seed_first_draw: "0 < sz \<Longrightarrow> engine_draws zero_seed sz ! 0 = 0"
  by (simp add: nth_engine_draws zero_seed_def good_mult_def good_mod_def py_truediv_def fl64_zero)







text \<open>
  Claim C9. For \<open>alpha > 0\<close> every integer the Poisson sampler returns is at least 1:
  the product starts at 1, which is not below \<open>e\<^sup>-\<^sup>\<alpha>\<close>, so the loop body runs at least
  once.
\<close>

theorem poisson_at_least_one:
  assumes "0 < alpha" and "pseudo_poisson alpha sz clock = Inr xs"
  shows "\<forall>x\<in>set xs. 1 \<le> x"
proof
  fix x assume "x \<in> set xs"
  then obtain j where j: "j < length xs" "xs ! j = x" by (auto simp: in_set_conv_nth)
  from assms(2) have "length xs = nat sz"
    and "\<forall>j<nat sz. poisson_outcome alpha (clock j) = Inr (xs ! j)"
    by (simp_all add: pseudo_poisson_Inr)
  with j have "poisson_outcome alpha (clock j) = Inr x" by auto
  then have r: "poisson_while (poisson_threshold alpha)
                  (map Finite (engine_draws (clock j) (5 * alpha))) 0 (Finite 1) 0 = Inr x"
    using assms(1) by (simp add: poisson_outcome_eq)
  with poisson_while_start [where thr = "poisson_threshold alpha"
         and U = "map Finite (engine_draws (clock j) (5 * alpha))"]
  obtain k where k: "x = int k"
    "first_below (poisson_threshold alpha) (map Finite (engine_draws (clock j) (5 * alpha))) k"
    by auto
  have "f64_le (poisson_threshold alpha) (Finite 1)" using assms(1) by (rule threshold_le_one)
  then have "1 \<le> k" using k(2) by (rule first_below_pos)
  with k(1) show "1 \<le> x" by simp
qed

lemma poisson_zero_draw: "pseudo_poisson 1 1 (const_clock zero_seed) = Inr [1]"
proof -
  let ?D = "engine_draws zero_seed 5"
  obtain t where t: "poisson_threshold 1 = Finite t" "5 / 16 \<le> t" "t \<le> 1 / 2"
    using threshold_one by blast
  have len: "length ?D = 5" by (simp add: length_engine_draws)
  have d: "?D ! 0 = 0" by (rule zero_seed_first_draw) simp
  have p1: "run_prod (map Finite ?D) (Suc 0) = Finite 0"
    using len d by (simp add: round64_def fl64_zero)
  have "first_below (poisson_threshold 1) (map Finite ?D) (Suc 0)"
    unfolding first_below_def using t p1 len by simp
  then have "\<forall>j<nat 1. first_below (poisson_threshold 1)
               (map Finite (engine_draws (const_clock zero_seed j) (5 * 1))) ([Suc 0] ! j)"
    by (simp add: const_clock_def)
  then have "pseudo_poisson 1 1 (const_clock zero_seed) = Inr (map int [Suc 0])"
    by (intro pseudo_poisson_first_below) simp_all
  then show ?thesis by simp
qed

text \<open>With the seed that makes the first draw 0, the count is 1.\<close>

theorem poisson_at_least_one_witness:
  "(0::int) < 1 \<and> pseudo_poisson 1 1 (const_clock zero_seed) = Inr [1] \<and> (1::int) \<le> [1] ! 0"
  using poisson_at_least_one [of 1 1 "const_clock zero_seed" "[1]"] poisson_zero_draw
  by simp

subsection \<open>No argument is checked\<close>

lemma indicators_all_one:
  "1 \<le> p \<Longrightarrow> map (indicator_le p) (map Finite (engine_draws seed sz)) = replicate (nat sz) 1"
proof -
  assume p: "1 \<le> p"
  have "indicator_le p (Finite u) = 1" if "u \<in> set (engine_draws seed sz)" for u
    using engine_draws_unit [OF that] p by (simp add: indicator_le_def)
  then have "map (\<lambda>u. indicator_le p (Finite u)) (engine_draws seed sz)
               = map (\<lambda>u. 1) (engine_draws seed sz)"
    by (intro map_cong) simp_all
  then show ?thesis by (simp add: map_replicate_const length_engine_draws comp_def)
qed

lemma indicators_all_zero:
  "p < 0 \<Longrightarrow> map (indicator_le p) (map Finite (engine_draws seed sz)) = replicate (nat sz) 0"
proof -
  assume p: "p < 0"
  have "indicator_le p (Finite u) = 0" if "u \<in> set (engine_draws seed sz)" for u
    using engine_draws_unit [OF that] p by (simp add: indicator_le_def)
  then have "map (\<lambda>u. indicator_le p (Finite u)) (engine_draws seed sz)
               = map (\<lambda>u. 0) (engine_draws seed sz)"
    by (intro map_cong) simp_all
  then show ?thesis by (simp add: map_replicate_const length_engine_draws comp_def)
qed

lemma upt_first: "1 \<le> sz \<Longrightarrow> \<exists>ks. [0..<nat sz] = 0 # ks"
proof -
  assume "1 \<le> sz"
  then obtain m where "nat sz = Suc m" by (cases "nat sz") simp_all
  then have "[0..<nat sz] = 0 # [1..<Suc m]" by (simp add: upt_conv_Cons)
  then show ?thesis by blast
qed

lemma binomial_negative_trials:
  "1 \<le> sz \<Longrightarrow> n < 0 \<Longrightarrow> pseudo_binomial n p sz clock = Inl ValueError"
  using upt_first [of sz] by (auto simp: pseudo_binomial_def pseudo_uniform_negative)

lemma poisson_negative_rate:
  "1 \<le> sz \<Longrightarrow> alpha < 0 \<Longrightarrow> pseudo_poisson alpha sz clock = Inl ValueError"
  using upt_first [of sz]
  by (auto simp: pseudo_poisson_def poisson_outcome_def pseudo_uniform_negative)

lemma pseudo_normal_Inr:
  "1 \<le> sz \<Longrightarrow> pseudo_normal mu sigma sz clock
     = Inr (map (\<lambda>(u1, u2). box_muller mu sigma (Finite u1) (Finite u2))
                (zip (engine_draws (clock 0) sz) (engine_draws (clock 1) sz)))"
  by (simp add: pseudo_normal_def pseudo_uniform_unit zip_map_map case_prod_beta comp_def)

lemma pseudo_exp_Inr:
  "1 \<le> sz \<Longrightarrow> lamb \<noteq> 0 \<Longrightarrow> pseudo_exp lamb sz clock
     = Inr (map (\<lambda>u. inverse_cdf lamb (Finite u)) (engine_draws (clock 0) sz))"
  by (simp add: pseudo_exp_def pseudo_uniform_unit comp_def)

lemma pseudo_exp_zero_rate:
  "1 \<le> sz \<Longrightarrow> pseudo_exp 0 sz clock = Inl ZeroDivisionError"
  by (simp add: pseudo_exp_def pseudo_uniform_unit)

lemma round64_eval:
  assumes "y = x * 2 ^ n" "2 ^ 52 \<le> \<bar>y\<bar>" "\<bar>y\<bar> < 2 ^ 53" "n \<le> 1074" "nearest_even y m"
  shows "round64 x = Finite (of_int m / 2 ^ n)"
proof -
  have f: "fl64 x = of_int m / 2 ^ n" using assms by (rule fl64_eval)
  have "\<bar>real_of_int m - y\<bar> \<le> 1 / 2" using assms(5) by (auto simp: nearest_even_def)
  then have "\<bar>real_of_int m\<bar> < 2 ^ 53 + 1" using assms(3) by linarith
  moreover have "(2::real) ^ 53 + 1 \<le> 2 ^ 1024"
  proof -
    have "(2::real) ^ 54 \<le> 2 ^ 1024" by (intro power_increasing) simp_all
    then show ?thesis by simp
  qed
  moreover have "\<bar>real_of_int m / 2 ^ n\<bar> \<le> \<bar>real_of_int m\<bar>"
  proof -
    have "(1::real) \<le> 2 ^ n" by simp
    then have "\<bar>real_of_int m\<bar> / 2 ^ n \<le> \<bar>real_of_int m\<bar> / 1"
      by (intro divide_left_mono) simp_all
    then show ?thesis by (simp add: abs_divide)
  qed
  ultimately have "\<bar>fl64 x\<bar> < 2 ^ 1024" unfolding f by linarith
  then have "round64 x = Finite (fl64 x)" by (rule round64_Finite)
  then show ?thesis by (simp only: f)
qed

lemma reversed_bounds_value:
  "scale 5 2 (7869348504398403 / 2 ^ 55) = Finite (4891748111925770 / 2 ^ 50)"
proof -
  define u :: real where "u = 7869348504398403 / 2 ^ 55"
  define t :: real where "t = of_int (- 5902011378298802) / 2 ^ 53"
  have s1: "f64_sub (Finite 2) (Finite 5) = Finite (- 3)"
    using round64_of_int [of "- 3"] by (simp add: f64_sub_def)
  have "round64 (- 3 * u) = Finite (of_int (- 5902011378298802) / 2 ^ 53)"
    by (rule round64_eval [where y = "- 3 * u * 2 ^ 53"]) (simp_all add: u_def nearest_even_def)
  then have s2: "f64_mul (Finite (- 3)) (Finite u) = Finite t"
    by (simp only: f64_mul.simps t_def)
  have "round64 (5 + t) = Finite (of_int 4891748111925770 / 2 ^ 50)"
    by (rule round64_eval [where y = "(5 + t) * 2 ^ 50"]) (simp_all add: t_def nearest_even_def)
  then have s3: "f64_add (Finite 5) (Finite t) = Finite (of_int 4891748111925770 / 2 ^ 50)"
    by (simp only: f64_add.simps)
  have "scale 5 2 u = Finite (of_int 4891748111925770 / 2 ^ 50)"
    by (simp only: scale_def s1 s2 s3)
  then show ?thesis by (simp add: u_def)
qed

text \<open>
  Claim C3 says that \<^verbatim>\<open>generate_uniform(low=5, high=2, ...)\<close> raises a configuration
  error. The code checks nothing: with the default seed and one value it returns a
  number (4.344745107621302).
\<close>

theorem uniform_accepts_reversed_bounds:
  "pseudo_uniform 5 2 default_seed 1 = Inr [Finite (4891748111925770 / 2 ^ 50)]"
proof -
  have "pseudo_uniform 5 2 default_seed 1 = Inr (map (scale 5 2) (engine_draws default_seed 1))"
    by (rule pseudo_uniform_Inr) simp
  then show ?thesis by (simp only: default_first_draw list.map reversed_bounds_value)
qed

text \<open>
  Claim C3, as the code has it. No sampler checks its arguments and none has a
  configuration error to raise. For a count of at least 1: the uniform sampler returns
  \<open>low + (high - low) \<sqdot> u\<close>, computed in binary64, per engine value for any \<open>low\<close> and
  \<open>high\<close>; the Bernoulli sampler returns the indicators of \<open>u \<le> p\<close> for any \<open>p\<close>, all
  1 when \<open>p \<ge> 1\<close> and all 0 when \<open>p < 0\<close>; the engine with any modulus other than 0, the
  Normal sampler with any \<open>sigma\<close> and the Exponential sampler with any rate other than
  0 return that many values. A rate of 0 raises ZeroDivisionError once the draws are
  made; a negative number of trials or a negative \<open>alpha\<close> raises ValueError when the
  array is allocated.
\<close>

theorem no_configuration_check:
  assumes "1 \<le> sz"
  shows "pseudo_uniform low high seed sz
           = Inr (map (\<lambda>u. f64_add (Finite low)
                              (f64_mul (f64_sub (Finite high) (Finite low)) (Finite u)))
                      (engine_draws seed sz))
         \<and> pseudo_bernoulli p sz clock
             = Inr (map (\<lambda>u. if u \<le> p then 1 else 0) (engine_draws (clock 0) sz))
         \<and> (1 \<le> p \<longrightarrow> pseudo_bernoulli p sz clock = Inr (replicate (nat sz) 1))
         \<and> (p < 0 \<longrightarrow> pseudo_bernoulli p sz clock = Inr (replicate (nat sz) 0))
         \<and> (md \<noteq> 0 \<longrightarrow> (\<exists>U. pseudo_uniform_good mult md seed sz = Inr U \<and> length U = nat sz))
         \<and> (\<exists>Z. pseudo_normal mu sigma sz clock = Inr Z \<and> length Z = nat sz)
         \<and> (lamb \<noteq> 0 \<longrightarrow> (\<exists>X. pseudo_exp lamb sz clock = Inr X \<and> length X = nat sz))
         \<and> (lamb = 0 \<longrightarrow> pseudo_exp lamb sz clock = Inl ZeroDivisionError)
         \<and> (n < 0 \<longrightarrow> pseudo_binomial n p sz clock = Inl ValueError)
         \<and> (alpha < 0 \<longrightarrow> pseudo_poisson alpha sz clock = Inl ValueError)"
proof -
  have "md \<noteq> 0 \<longrightarrow> (\<exists>U. pseudo_uniform_good mult md seed sz = Inr U \<and> length U = nat sz)"
    using assms by (simp add: pseudo_uniform_good_Inr)
  moreover have "\<exists>Z. pseudo_normal mu sigma sz clock = Inr Z \<and> length Z = nat sz"
    using assms by (simp add: pseudo_normal_Inr length_engine_draws)
  moreover have "lamb \<noteq> 0 \<longrightarrow> (\<exists>X. pseudo_exp lamb sz clock = Inr X \<and> length X = nat sz)"
    using assms by (simp add: pseudo_exp_Inr length_engine_draws)
  moreover have "lamb = 0 \<longrightarrow> pseudo_exp lamb sz clock = Inl ZeroDivisionError"
    using assms by (simp add: pseudo_exp_zero_rate)
  moreover have "n < 0 \<longrightarrow> pseudo_binomial n p sz clock = Inl ValueError"
    using assms by (simp add: binomial_negative_trials)
  moreover have "alpha < 0 \<longrightarrow> pseudo_poisson alpha sz clock = Inl ValueError"
    using assms by (simp add: poisson_negative_rate)
  moreover have "1 \<le> p \<longrightarrow> pseudo_bernoulli p sz clock = Inr (replicate (nat sz) 1)"
    using assms indicators_all_one [of p "clock 0" sz] by (simp add: pseudo_bernoulli_Inr)
  moreover have "p < 0 \<longrightarrow> pseudo_bernoulli p sz clock = Inr (replicate (nat sz) 0)"
    using assms indicators_all_zero [of p "clock 0" sz] by (simp add: pseudo_bernoulli_Inr)
  moreover have "pseudo_bernoulli p sz clock
                   = Inr (map (\<lambda>u. if u \<le> p then 1 else 0) (engine_draws (clock 0) sz))"
    using assms by (simp add: pseudo_bernoulli_Inr indicator_le_def comp_def)
  moreover have "pseudo_uniform low high seed sz
           = Inr (map (\<lambda>u. f64_add (Finite low)
                              (f64_mul (f64_sub (Finite high) (Finite low)) (Finite u)))
                      (engine_draws seed sz))"
    using pseudo_uniform_Inr [OF assms, of low high seed] by (simp add: scale_def [abs_def])
  ultimately show ?thesis by blast
qed

lemma negative_modulus_example:
  "pseudo_uniform_good 5 (- 11) 3 1 = Inr [4913017775313268 / 2 ^ 53]"
proof -
  have "fl64 (6 / 11) = of_int 4913017775313268 / 2 ^ 53"
    by (rule fl64_eval [where y = "6 / 11 * 2 ^ 53"]) (simp_all add: nearest_even_def)
  then have q: "py_truediv (- 6) (- 11) = 4913017775313268 / 2 ^ 53"
    by (simp add: py_truediv_def)
  have "pseudo_uniform_good 5 (- 11) 3 1 = Inr [py_truediv (- 6) (- 11)]"
    by (simp add: pseudo_uniform_good_def np_zeros_def lcg_loop.simps Let_def)
  then show ?thesis by (simp only: q)
qed

text \<open>Reversed bounds, probabilities 3/2 and -1, a rate of 0, -1 trials, \<open>alpha = -1\<close>.\<close>

theorem no_configuration_check_witness:
  "(1::int) \<le> 1
   \<and> pseudo_uniform 5 2 default_seed 1 = Inr [Finite (4891748111925770 / 2 ^ 50)]
   \<and> pseudo_bernoulli (3 / 2) 1 (const_clock default_seed) = Inr [1]
   \<and> pseudo_bernoulli (- 1) 1 (const_clock default_seed) = Inr [0]
   \<and> pseudo_uniform_good 5 (- 11) 3 1 = Inr [4913017775313268 / 2 ^ 53]
   \<and> pseudo_exp 0 1 (const_clock default_seed) = Inl ZeroDivisionError
   \<and> pseudo_binomial (- 1) (3 / 2) 1 (const_clock default_seed) = Inl ValueError
   \<and> pseudo_poisson (- 1) 1 (const_clock default_seed) = Inl ValueError"
proof -
  have one: "(1::int) \<le> 1" by simp
  note a = no_configuration_check [OF one, where low = 5 and high = 2 and seed = default_seed
          and p = "3 / 2" and clock = "const_clock default_seed" and md = 1 and lamb = 0
          and n = "- 1" and alpha = "- 1" and mult = 1 and mu = 0 and sigma = 1]
  note b = no_configuration_check [OF one, where low = 5 and high = 2 and seed = 3
          and p = "- 1" and clock = "const_clock default_seed" and md = "- 11" and lamb = "- 1"
          and n = "- 1" and alpha = "- 1" and mult = 5 and mu = 0 and sigma = 1]
  from a have "pseudo_uniform 5 2 default_seed 1
                 = Inr (map (\<lambda>u. f64_add (Finite 5)
                                    (f64_mul (f64_sub (Finite 2) (Finite 5)) (Finite u)))
                            (engine_draws default_seed 1))"
    by blast
  then have "pseudo_uniform 5 2 default_seed 1
                 = Inr (map (scale 5 2) (engine_draws default_seed 1))"
    by (simp add: scale_def [abs_def])
  then have u: "pseudo_uniform 5 2 default_seed 1 = Inr [Finite (4891748111925770 / 2 ^ 50)]"
    by (simp only: default_first_draw list.map reversed_bounds_value)
  have h1: "(1::real) \<le> 3 / 2" and h0: "(- 1 :: real) < 0" and hz: "(0::real) = 0"
    and hn: "(- 1 :: int) < 0"
    by simp_all
  from a h1 have "pseudo_bernoulli (3 / 2) 1 (const_clock default_seed)
                    = Inr (replicate (nat 1) 1)"
    by blast
  then have p1: "pseudo_bernoulli (3 / 2) 1 (const_clock default_seed) = Inr [1]" by simp
  from b h0 have "pseudo_bernoulli (- 1) 1 (const_clock default_seed)
                    = Inr (replicate (nat 1) 0)"
    by blast
  then have p0: "pseudo_bernoulli (- 1) 1 (const_clock default_seed) = Inr [0]" by simp
  from a hz have e: "pseudo_exp 0 1 (const_clock default_seed) = Inl ZeroDivisionError"
    by blast
  from a hn have bn: "pseudo_binomial (- 1) (3 / 2) 1 (const_clock default_seed) = Inl ValueError"
    by blast
  from a hn have po: "pseudo_poisson (- 1) 1 (const_clock default_seed) = Inl ValueError"
    by blast
  from u p1 p0 e bn po negative_modulus_example show ?thesis by simp
qed

subsection \<open>Logarithms at the boundary\<close>

lemma zero_first_draw: "engine_draws zero_seed 1 = [0]"
  by (simp add: engine_draws_def good_mult_def good_mod_def zero_seed_def py_truediv_def fl64_zero)

lemma small_first_draw: "\<exists>d. engine_draws 1000 1 = [d] \<and> 0 \<le> d \<and> d \<le> 1 / 16"
proof -
  have a: "engine_draws 1000 1 = [fl64 (16807001 / 2147483647)]"
    by (simp add: engine_draws_def good_mult_def good_mod_def py_truediv_def)
  have "0 \<le> fl64 (16807001 / 2147483647)"
    using fl64_unit_interval [of "16807001 / 2147483647"] by simp
  moreover have "fl64 (16807001 / 2147483647) \<le> 1 / 16"
    using is_f64_frac [of 1 4] by (intro fl64_le_f64) simp_all
  ultimately show ?thesis using a by blast
qed

lemma two_pi_rounded: "\<exists>tp. round64 (2 * np_pi) = Finite tp \<and> 0 \<le> tp \<and> tp \<le> 8"
proof -
  have i2: "is_f64 2" using is_f64_of_int [of 2] by simp
  have i4: "is_f64 4" using is_f64_of_int [of 4] by simp
  have i8: "is_f64 8" using is_f64_of_int [of 8] by simp
  have "2 \<le> np_pi" unfolding np_pi_def using pi_ge_two by (rule fl64_ge_f64 [OF i2])
  moreover have "np_pi \<le> 4" unfolding np_pi_def using pi_less_4 by (intro fl64_le_f64 [OF i4]) simp
  ultimately have r: "0 \<le> 2 * np_pi" "2 * np_pi \<le> 8" by simp_all
  have lo: "0 \<le> fl64 (2 * np_pi)" using r(1) by (rule fl64_nonneg)
  have hi: "fl64 (2 * np_pi) \<le> 8" using r(2) by (rule fl64_le_f64 [OF i8])
  have "\<bar>fl64 (2 * np_pi)\<bar> < 2 ^ 1024" using lo hi by simp
  then have "round64 (2 * np_pi) = Finite (fl64 (2 * np_pi))" by (rule round64_Finite)
  with lo hi show ?thesis by blast
qed

lemma cos_unit_half: "0 \<le> y \<Longrightarrow> y \<le> 1 / 2 \<Longrightarrow> 1 / 2 \<le> cos (y::real) \<and> cos y \<le> 1"
proof -
  assume y: "0 \<le> y" "y \<le> 1 / 2"
  have "y \<le> pi / 4" using y(2) pi_ge_two by simp
  moreover have "pi / 4 \<le> pi" using pi_gt_zero by simp
  ultimately have "cos (pi / 4) \<le> cos y" using y(1) by (intro cos_monotone_0_pi_le) simp_all
  then have "sqrt 2 / 2 \<le> cos y" by (simp only: cos_45)
  moreover have "1 \<le> sqrt 2" by simp
  ultimately have "1 / 2 \<le> cos y" by linarith
  then show ?thesis by simp
qed

lemma box_muller_zero_draw:
  assumes "0 \<le> d" "d \<le> 1 / 16"
  shows "box_muller 0 1 (Finite 0) (Finite d) = PosInf"
proof -
  obtain tp where tp: "round64 (2 * np_pi) = Finite tp" "0 \<le> tp" "tp \<le> 8"
    using two_pi_rounded by blast
  define y where "y = fl64 (tp * d)"
  define c where "c = fl64 (cos y)"
  have b: "0 \<le> tp * d" "tp * d \<le> 1 / 2"
    using tp(2,3) assms mult_mono [of tp 8 d "1 / 16"] by simp_all
  have y: "0 \<le> y" "y \<le> 1 / 2"
    unfolding y_def using b fl64_nonneg [of "tp * d"] fl64_le_f64 [OF is_f64_half, of "tp * d"]
    by simp_all
  have ang: "f64_mul (Finite tp) (Finite d) = Finite y"
    using round64_unit [of "tp * d"] b by (simp add: y_def)
  have cs: "1 / 2 \<le> cos y" "cos y \<le> 1" using cos_unit_half [OF y] by simp_all
  have "1 / 2 \<le> c" unfolding c_def using cs(1) by (rule fl64_ge_f64 [OF is_f64_half])
  then have cpos: "0 < c" by simp
  have "0 \<le> cos y" using cs(1) by simp
  then have co: "np_cos (Finite y) = Finite c"
    using round64_unit [of "cos y"] cs(2) by (simp add: c_def)
  have rt: "np_sqrt (f64_mul (Finite (- 2)) (np_log (Finite 0))) = PosInf" by simp
  have "box_muller 0 1 (Finite 0) (Finite d)
          = f64_add (f64_mul (f64_mul PosInf (Finite c)) (Finite 1)) (Finite 0)"
    by (simp only: box_muller_def tp(1) ang co rt)
  also have "\<dots> = PosInf" using cpos by simp
  finally show ?thesis .
qed

text \<open>
  Claim C4 says that a draw of 0 feeding \<open>ln\<close> is drawn again or reported, so that no
  value returned is infinite. The Normal sampler does neither: when the clock gives the
  seed 739806647 first and 1000 next, \<open>U1\<close> is 0 and the value returned is \<open>+inf\<close>.
\<close>

theorem normal_returns_infinity: "pseudo_normal 0 1 1 zero_then_small = Inr [PosInf]"
proof -
  obtain d where d: "engine_draws 1000 1 = [d]" "0 \<le> d" "d \<le> 1 / 16"
    using small_first_draw by blast
  have "pseudo_normal 0 1 1 zero_then_small
          = Inr (map (\<lambda>(u1, u2). box_muller 0 1 (Finite u1) (Finite u2))
                     (zip (engine_draws (zero_then_small 0) 1) (engine_draws (zero_then_small 1) 1)))"
    by (rule pseudo_normal_Inr) simp
  also have "\<dots> = Inr [box_muller 0 1 (Finite 0) (Finite d)]"
    by (simp add: zero_then_small_def zero_first_draw d(1))
  finally show ?thesis by (simp only: box_muller_zero_draw [OF d(2,3)])
qed

text \<open>
  Claim C4, as the code has it. Neither sampler draws again and neither reports a
  domain error. For a count of at least 1 the Normal sampler returns, at each position,
  the Box-Muller value of the one pair of draws there, and the Exponential sampler (rate
  other than 0) returns, at each position, \<open>-(1/lamb) \<sqdot> ln (1 - u)\<close>, computed in
  binary64, of the one draw there. No engine value is 1: \<open>1 - u\<close> is a positive binary64
  number, so the Exponential sampler takes \<open>ln\<close> of positive numbers only. Nothing is
  said here about the size of the values returned: they may be infinite.
\<close>

theorem no_resampling:
  assumes "1 \<le> sz"
  shows "pseudo_normal mu sigma sz clock
           = Inr (map (\<lambda>(u1, u2). box_muller mu sigma (Finite u1) (Finite u2))
                      (zip (engine_draws (clock 0) sz) (engine_draws (clock 1) sz)))
         \<and> (lamb \<noteq> 0 \<longrightarrow>
               pseudo_exp lamb sz clock
                 = Inr (map (\<lambda>u. f64_mul (f64_neg (round64 (1 / lamb)))
                                    (np_log (f64_sub (Finite 1) (Finite u))))
                            (engine_draws (clock 0) sz)))
         \<and> (\<forall>u\<in>set (engine_draws (clock 0) sz).
               u < 1 \<and> f64_sub (Finite 1) (Finite u) = Finite (fl64 (1 - u)) \<and> 0 < fl64 (1 - u))"
proof -
  have pos: "u < 1 \<and> f64_sub (Finite 1) (Finite u) = Finite (fl64 (1 - u)) \<and> 0 < fl64 (1 - u)"
    if "u \<in> set (engine_draws (clock 0) sz)" for u
  proof -
    from engine_draws_range [OF that] have u: "0 \<le> u" "u \<le> 1 - 1 / 2 ^ 31" by simp_all
    have i: "is_f64 (1 / 2 ^ 31)" using is_f64_frac [of 1 31] by simp
    have b: "0 \<le> 1 - u" "1 - u \<le> 1" using u by simp_all
    have "1 / 2 ^ 31 \<le> 1 - u" using u(2) by simp
    then have "1 / 2 ^ 31 \<le> fl64 (1 - u)" by (rule fl64_ge_f64 [OF i])
    moreover have "(0::real) < 1 / 2 ^ 31" by simp
    ultimately have p: "0 < fl64 (1 - u)" by linarith
    have "f64_sub (Finite 1) (Finite u) = round64 (1 - u)" by (simp add: f64_sub_def)
    then have "f64_sub (Finite 1) (Finite u) = Finite (fl64 (1 - u))"
      using round64_unit [OF b] by simp
    moreover have "u < 1" using u(2) by (simp add: field_simps)
    ultimately show ?thesis using p by blast
  qed
  have "pseudo_normal mu sigma sz clock
           = Inr (map (\<lambda>(u1, u2). box_muller mu sigma (Finite u1) (Finite u2))
                      (zip (engine_draws (clock 0) sz) (engine_draws (clock 1) sz)))"
    using assms by (rule pseudo_normal_Inr)
  moreover have "lamb \<noteq> 0 \<longrightarrow>
               pseudo_exp lamb sz clock
                 = Inr (map (\<lambda>u. f64_mul (f64_neg (round64 (1 / lamb)))
                                    (np_log (f64_sub (Finite 1) (Finite u))))
                            (engine_draws (clock 0) sz))"
    using assms by (simp add: pseudo_exp_Inr inverse_cdf_def)
  ultimately show ?thesis using pos by blast
qed

lemma one_minus_default_draw:
  "fl64 (1 - 7869348504398403 / 2 ^ 55) = 7039862128641391 / 2 ^ 53"
proof -
  have "fl64 (1 - 7869348504398403 / 2 ^ 55) = of_int 7039862128641391 / 2 ^ 53"
    by (rule fl64_eval [where y = "(1 - 7869348504398403 / 2 ^ 55) * 2 ^ 53"])
       (simp_all add: nearest_even_def)
  then show ?thesis by simp
qed

text \<open>One value from the default seed, rate 1, \<open>mu = 0\<close>, \<open>sigma = 1\<close>.\<close>

theorem no_resampling_witness:
  "(1::int) \<le> 1
   \<and> pseudo_normal 0 1 1 (const_clock default_seed)
       = Inr [box_muller 0 1 (Finite (7869348504398403 / 2 ^ 55))
                             (Finite (7869348504398403 / 2 ^ 55))]
   \<and> pseudo_exp 1 1 (const_clock default_seed)
       = Inr [f64_mul (f64_neg (round64 (1 / 1)))
                (np_log (f64_sub (Finite 1) (Finite (7869348504398403 / 2 ^ 55))))]
   \<and> f64_sub (Finite 1) (Finite (7869348504398403 / 2 ^ 55))
       = Finite (7039862128641391 / 2 ^ 53)"
proof -
  have one: "(1::int) \<le> 1" by simp
  note a = no_resampling [OF one, where mu = 0 and sigma = 1 and lamb = 1
             and clock = "const_clock default_seed"]
  have m: "7869348504398403 / 2 ^ 55 \<in> set (engine_draws (const_clock default_seed 0) 1)"
    by (simp only: const_clock_def default_first_draw list.set insertI1)
  have nz: "(1::real) \<noteq> 0" by simp
  from a have "pseudo_normal 0 1 1 (const_clock default_seed)
       = Inr (map (\<lambda>(u1, u2). box_muller 0 1 (Finite u1) (Finite u2))
                  (zip (engine_draws (const_clock default_seed 0) 1)
                       (engine_draws (const_clock default_seed 1) 1)))"
    by blast
  then have n: "pseudo_normal 0 1 1 (const_clock default_seed)
       = Inr [box_muller 0 1 (Finite (7869348504398403 / 2 ^ 55))
                             (Finite (7869348504398403 / 2 ^ 55))]"
    by (simp only: const_clock_def default_first_draw zip_Cons_Cons zip_Nil list.map prod.case)
  from a nz have "pseudo_exp 1 1 (const_clock default_seed)
       = Inr (map (\<lambda>u. f64_mul (f64_neg (round64 (1 / 1)))
                          (np_log (f64_sub (Finite 1) (Finite u))))
                  (engine_draws (const_clock default_seed 0) 1))"
    by blast
  then have e: "pseudo_exp 1 1 (const_clock default_seed)
       = Inr [f64_mul (f64_neg (round64 (1 / 1)))
                (np_log (f64_sub (Finite 1) (Finite (7869348504398403 / 2 ^ 55))))]"
    by (simp only: const_clock_def default_first_draw list.map)
  from a m have "f64_sub (Finite 1) (Finite (7869348504398403 / 2 ^ 55))
                   = Finite (fl64 (1 - 7869348504398403 / 2 ^ 55))"
    by blast
  then have s: "f64_sub (Finite 1) (Finite (7869348504398403 / 2 ^ 55))
                   = Finite (7039862128641391 / 2 ^ 53)"
    by (simp only: one_minus_default_draw)
  from one n e s show ?thesis by blast
qed

end
